theory Spec2Isabelle
  imports Main
begin

section \<open>ChessX100: the board model\<close>

text \<open>
  The engine is the Express server of the repository (the 351-line version with en passant,
  promotion, king capture and move notation). Its board is \<^verbatim>\<open>board[r][c]\<close>, an array of
  \<^verbatim>\<open>SIZE\<close> rows of \<^verbatim>\<open>SIZE\<close> cells; a cell is \<^verbatim>\<open>null\<close> or a two-character
  string such as \<^verbatim>\<open>"wP"\<close>: colour first, piece type second. Every string the program ever
  stores in a cell is one of its own two-character template literals, so a piece is modelled
  as the pair of its two characters. A square \<^verbatim>\<open>{ r, c }\<close> is the pair (row, column) of
  integers.
\<close>

definition SIZE :: int where
  "SIZE = 10"

type_synonym piece = "char \<times> char"
type_synonym board = "piece option list list"
type_synonym square = "int \<times> int"

text \<open>
  JavaScript semantics of the read \<^verbatim>\<open>board[i][j]\<close>: when \<^verbatim>\<open>i\<close> is not an index of
  \<^verbatim>\<open>board\<close>, \<^verbatim>\<open>board[i]\<close> is \<^verbatim>\<open>undefined\<close> and indexing it throws a TypeError; when the
  row exists and \<^verbatim>\<open>j\<close> is not an index of it, the read yields \<^verbatim>\<open>undefined\<close>.
\<close>

datatype exn = TypeError

datatype rd = Undefined | Cell "piece option"

definition cellAt :: "board \<Rightarrow> int \<Rightarrow> int \<Rightarrow> exn + rd" where
  "cellAt b i j =
     (if 0 \<le> i \<and> i < int (length b)
      then (if 0 \<le> j \<and> j < int (length (b ! nat i))
            then Inr (Cell (b ! nat i ! nat j))
            else Inr Undefined)
      else Inl TypeError)"

text \<open>
  The write \<^verbatim>\<open>board[i][j] = v\<close>. The handler writes only after \<^verbatim>\<open>isValidMove\<close> has
  accepted the move, that is to squares inside the board.
\<close>

definition setCell :: "board \<Rightarrow> int \<Rightarrow> int \<Rightarrow> piece option \<Rightarrow> board" where
  "setCell b i j v = b[nat i := (b ! nat i)[nat j := v]]"

definition backRank :: "char \<Rightarrow> piece option list" where
  "backRank color = map (\<lambda>t. Some (color, t)) ''RNBAQKABNR''"

definition initialBoard :: board where
  "initialBoard =
     [backRank CHR ''b'', replicate 10 (Some (CHR ''b'', CHR ''P''))]
     @ replicate 6 (replicate 10 None)
     @ [replicate 10 (Some (CHR ''w'', CHR ''P'')), backRank CHR ''w'']"

definition wf_board :: "board \<Rightarrow> bool" where
  "wf_board b \<longleftrightarrow> length b = 10 \<and> list_all (\<lambda>row. length row = 10) b"

definition inBounds :: "int \<Rightarrow> int \<Rightarrow> bool" where
  "inBounds i j \<longleftrightarrow> i \<ge> 0 \<and> i < SIZE \<and> j \<ge> 0 \<and> j < SIZE"

text \<open>\<^verbatim>\<open>piece?.[0] ?? null\<close> and \<^verbatim>\<open>piece?.[1] ?? null\<close>: \<^verbatim>\<open>null\<close> is \<open>None\<close>.\<close>

fun colorOf :: "rd \<Rightarrow> char option" where
  "colorOf (Cell (Some (col, ty))) = Some col"
| "colorOf _ = None"

fun typeOf :: "rd \<Rightarrow> char option" where
  "typeOf (Cell (Some (col, ty))) = Some ty"
| "typeOf _ = None"

section \<open>The legality engine\<close>

text \<open>
  \<^verbatim>\<open>pathClear\<close>: the \<^verbatim>\<open>while\<close> loop walks from the square after \<^verbatim>\<open>from\<close> by the sign
  vector until it stands on \<^verbatim>\<open>to\<close>. Nothing in the loop bounds the walk, so it is a partial
  function: \<open>None\<close> is a walk that never ends, \<open>Some (Inl TypeError)\<close> a read of a missing
  row, \<open>Some (Inr v)\<close> the returned boolean.
\<close>

partial_function (option) pathClear_loop ::
  "board \<Rightarrow> int \<Rightarrow> int \<Rightarrow> square \<Rightarrow> int \<Rightarrow> int \<Rightarrow> (exn + bool) option" where
  "pathClear_loop b dr dc to i j =
     (if i \<noteq> fst to \<or> j \<noteq> snd to
      then (case cellAt b i j of
              Inl e \<Rightarrow> Some (Inl e)
            | Inr v \<Rightarrow> if v \<noteq> Cell None then Some (Inr False)
                       else pathClear_loop b dr dc to (i + dr) (j + dc))
      else Some (Inr True))"

declare pathClear_loop.simps [code]

definition pathClear :: "board \<Rightarrow> square \<Rightarrow> square \<Rightarrow> (exn + bool) option" where
  "pathClear b from to =
     (let dr = sgn (fst to - fst from);
          dc = sgn (snd to - snd from)
      in pathClear_loop b dr dc to (fst from + dr) (snd from + dc))"

definition isValidPawnMove ::
  "board \<Rightarrow> square \<Rightarrow> square \<Rightarrow> char \<Rightarrow> square option \<Rightarrow> square option \<Rightarrow> exn + bool" where
  "isValidPawnMove b from to color enPassantTarget enPassantPawn =
     (let dir = (if color = CHR ''w'' then - 1 else 1);
          startRow = (if color = CHR ''w'' then SIZE - 2 else 1);
          dr = fst to - fst from;
          dc = snd to - snd from
      in case cellAt b (fst to) (snd to) of
           Inl e \<Rightarrow> Inl e
         | Inr target \<Rightarrow>
             if dc = 0 then
               (if dr = dir \<and> target = Cell None then Inr True
                else if fst from = startRow \<and> dr = 2 * dir then
                  (let midR = fst from + dir
                   in if target = Cell None
                      then (case cellAt b midR (snd from) of
                              Inl e \<Rightarrow> Inl e
                            | Inr mid \<Rightarrow> Inr (mid = Cell None))
                      else Inr False)
                else Inr False)
             else if \<bar>dc\<bar> = 1 \<and> dr = dir then
               (if target \<noteq> Cell None \<and> colorOf target \<noteq> Some color then Inr True
                else (case (enPassantTarget, enPassantPawn) of
                        (Some ept, Some epp) \<Rightarrow>
                          if target = Cell None \<and> fst to = fst ept \<and> snd to = snd ept
                             \<and> fst epp = fst from \<and> snd epp = snd to
                          then (case cellAt b (fst epp) (snd epp) of
                                  Inl e \<Rightarrow> Inl e
                                | Inr victim \<Rightarrow>
                                    Inr (case victim of
                                           Cell (Some (vcol, vty)) \<Rightarrow>
                                             vty = CHR ''P'' \<and> vcol \<noteq> color
                                         | _ \<Rightarrow> False))
                          else Inr False
                      | _ \<Rightarrow> Inr False))
             else Inr False)"

text \<open>
  The rejection reasons of the program, one constructor for each reason string it sends:
  "Out of bounds.", "You must move to a different square.", "No piece on that square.",
  "Not your piece / not your turn.", "You can't capture your own piece.",
  "Illegal pawn move." (and knight, bishop, rook, queen, king, noble), "Unknown piece.",
  "Game over. Reset to play again." and, with status 400, "Missing from/to.".
\<close>

datatype reason =
    OutOfBounds | SameSquare | NoPiece | NotYourPiece | OwnCapture
  | IllegalPawn | IllegalKnight | IllegalBishop | IllegalRook | IllegalQueen
  | IllegalKing | IllegalNoble | UnknownPiece | GameOver | MissingFromTo

datatype verdict = Ok | Illegal reason

definition judge :: "bool \<Rightarrow> reason \<Rightarrow> verdict" where
  "judge ok why = (if ok then Ok else Illegal why)"

text \<open>
  \<^verbatim>\<open>isValidMove\<close>. The sliding pieces evaluate \<^verbatim>\<open>shape && pathClear(board, from, to)\<close>:
  the call is made only when the shape test is true. The path check is a parameter of the
  translation, so that its call sites can be quantified over; the engine runs it with
  \<open>pathClear\<close>.
\<close>

definition sliding ::
  "(board \<Rightarrow> square \<Rightarrow> square \<Rightarrow> (exn + bool) option) \<Rightarrow> bool \<Rightarrow> board \<Rightarrow> square \<Rightarrow> square
     \<Rightarrow> reason \<Rightarrow> (exn + verdict) option" where
  "sliding pc shape b from to why =
     (if shape
      then (case pc b from to of
              None \<Rightarrow> None
            | Some (Inl e) \<Rightarrow> Some (Inl e)
            | Some (Inr clear) \<Rightarrow> Some (Inr (judge clear why)))
      else Some (Inr (Illegal why)))"

definition isValidMove_with ::
  "(board \<Rightarrow> square \<Rightarrow> square \<Rightarrow> (exn + bool) option) \<Rightarrow> board \<Rightarrow> square \<Rightarrow> square \<Rightarrow> char
     \<Rightarrow> square option \<Rightarrow> square option \<Rightarrow> (exn + verdict) option" where
  "isValidMove_with pc b from to turnColor enPassantTarget enPassantPawn =
     (if \<not> inBounds (fst from) (snd from) \<or> \<not> inBounds (fst to) (snd to)
      then Some (Inr (Illegal OutOfBounds))
      else if fst from = fst to \<and> snd from = snd to
      then Some (Inr (Illegal SameSquare))
      else case cellAt b (fst from) (snd from) of
        Inl e \<Rightarrow> Some (Inl e)
      | Inr Undefined \<Rightarrow> Some (Inr (Illegal NoPiece))
      | Inr (Cell None) \<Rightarrow> Some (Inr (Illegal NoPiece))
      | Inr (Cell (Some (pieceColor, pieceType))) \<Rightarrow>
          if pieceColor \<noteq> turnColor then Some (Inr (Illegal NotYourPiece))
          else (case cellAt b (fst to) (snd to) of
            Inl e \<Rightarrow> Some (Inl e)
          | Inr target \<Rightarrow>
              if colorOf target = Some turnColor then Some (Inr (Illegal OwnCapture))
              else
                (let dr = fst to - fst from;
                     dc = snd to - snd from;
                     adr = \<bar>dr\<bar>;
                     adc = \<bar>dc\<bar>
                 in if pieceType = CHR ''P'' then
                      (case isValidPawnMove b from to pieceColor enPassantTarget enPassantPawn of
                         Inl e \<Rightarrow> Some (Inl e)
                       | Inr ok \<Rightarrow> Some (Inr (judge ok IllegalPawn)))
                    else if pieceType = CHR ''N'' then
                      Some (Inr (judge ((adr = 2 \<and> adc = 1) \<or> (adr = 1 \<and> adc = 2)) IllegalKnight))
                    else if pieceType = CHR ''B'' then
                      sliding pc (adr = adc) b from to IllegalBishop
                    else if pieceType = CHR ''R'' then
                      sliding pc (dr = 0 \<or> dc = 0) b from to IllegalRook
                    else if pieceType = CHR ''Q'' then
                      sliding pc ((adr = adc) \<or> (dr = 0 \<or> dc = 0)) b from to IllegalQueen
                    else if pieceType = CHR ''K'' then
                      Some (Inr (judge (adr \<le> 1 \<and> adc \<le> 1) IllegalKing))
                    else if pieceType = CHR ''A'' then
                      Some (Inr (judge (adr \<le> 1 \<and> adc \<le> 1) IllegalNoble))
                    else Some (Inr (Illegal UnknownPiece)))))"

definition isValidMove ::
  "board \<Rightarrow> square \<Rightarrow> square \<Rightarrow> char \<Rightarrow> square option \<Rightarrow> square option
     \<Rightarrow> (exn + verdict) option" where
  "isValidMove = isValidMove_with pathClear"

section \<open>Move notation\<close>

text \<open>
  \<^verbatim>\<open>(SIZE - r).toString()\<close>: the decimal numeral of an integer.
\<close>

fun natToString :: "nat \<Rightarrow> string" where
  "natToString n =
     (if n < 10 then [''0123456789'' ! n]
      else natToString (n div 10) @ [''0123456789'' ! (n mod 10)])"

declare natToString.simps [simp del]

definition toString :: "int \<Rightarrow> string" where
  "toString n = (if n < 0 then CHR ''-'' # natToString (nat (- n)) else natToString (nat n))"

text \<open>
  \<^verbatim>\<open>"abcdefghij"[c]\<close> is \<^verbatim>\<open>undefined\<close> outside the string, and \<^verbatim>\<open>undefined + rank\<close>
  concatenates the word "undefined".
\<close>

definition toAlgebraic :: "int \<Rightarrow> int \<Rightarrow> string" where
  "toAlgebraic i j =
     (let file = (if 0 \<le> j \<and> j < 10 then [''abcdefghij'' ! nat j] else ''undefined'');
          rank = toString (SIZE - i)
      in file @ rank)"

definition pieceToNotation :: "char option \<Rightarrow> string" where
  "pieceToNotation pieceType =
     (if pieceType = Some CHR ''P'' then []
      else if pieceType = Some CHR ''R'' then ''R''
      else if pieceType = Some CHR ''B'' then ''B''
      else if pieceType = Some CHR ''N'' then ''N''
      else if pieceType = Some CHR ''A'' then ''A''
      else if pieceType = Some CHR ''Q'' then ''Q''
      else if pieceType = Some CHR ''K'' then ''K''
      else [])"

text \<open>
  The notation the handler builds (lines 313 to 329): the piece, capture and destination
  part, then \<^verbatim>\<open>#\<close> when \<^verbatim>\<open>game.isOver\<close> holds after the move, then \<^verbatim>\<open>=Q\<close> when the pawn
  was promoted, then the en-passant marker.
\<close>

definition moveNotation ::
  "char option \<Rightarrow> bool \<Rightarrow> square \<Rightarrow> square \<Rightarrow> bool \<Rightarrow> bool \<Rightarrow> bool \<Rightarrow> string" where
  "moveNotation pieceType isCapture from to over didPromote isEP =
     (if pieceType = Some CHR ''P''
      then (if isCapture
            then take 1 (toAlgebraic (fst from) (snd from)) @ ''x'' @ toAlgebraic (fst to) (snd to)
            else toAlgebraic (fst to) (snd to))
      else pieceToNotation pieceType @ (if isCapture then ''x'' else [])
           @ toAlgebraic (fst to) (snd to))
     @ (if over then ''#'' else [])
     @ (if didPromote then ''=Q'' else [])
     @ (if isEP then '' e.p.'' else [])"

section \<open>The game state and the move handler\<close>

record game =
  board :: board
  turn :: char
  moveNumber :: int
  isOver :: bool
  enPassantTarget :: "square option"
  enPassantPawn :: "square option"
  moves :: "string list"

definition initialGame :: game where
  "initialGame =
     \<lparr>board = initialBoard, turn = CHR ''w'', moveNumber = 1, isOver = False,
      enPassantTarget = None, enPassantPawn = None, moves = []\<rparr>"

text \<open>
  The handler's classification \<^verbatim>\<open>isEnPassantCapture\<close> (lines 251 to 261), from the two cells
  it has read: \<open>piece\<close> is \<^verbatim>\<open>board[from.r][from.c]\<close> and \<open>dest\<close> is
  \<^verbatim>\<open>board[to.r][to.c]\<close>.
\<close>

definition isEnPassantCapture ::
  "rd \<Rightarrow> rd \<Rightarrow> square \<Rightarrow> square \<Rightarrow> square option \<Rightarrow> square option \<Rightarrow> bool" where
  "isEnPassantCapture piece dest from to epTarget epPawn =
     (typeOf piece = Some CHR ''P''
      \<and> (case (epTarget, epPawn) of
            (Some ept, Some epp) \<Rightarrow>
              dest = Cell None
              \<and> \<bar>snd to - snd from\<bar> = 1
              \<and> fst to - fst from = (if colorOf piece = Some CHR ''w'' then - 1 else 1)
              \<and> fst to = fst ept \<and> snd to = snd ept
              \<and> fst epp = fst from \<and> snd epp = snd to
          | _ \<Rightarrow> False))"

text \<open>
  The mutation of an accepted move (lines 266 to 331); \<open>movingPiece\<close> is the piece read at
  \<^verbatim>\<open>from\<close> and \<open>dest\<close> the cell read at \<^verbatim>\<open>to\<close> before anything is written.
\<close>

definition applyMove :: "game \<Rightarrow> square \<Rightarrow> square \<Rightarrow> piece \<Rightarrow> rd \<Rightarrow> game" where
  "applyMove g from to movingPiece dest =
     (let isCapture = (dest \<noteq> Cell None);
          isEP = isEnPassantCapture (Cell (Some movingPiece)) dest from to
                   (enPassantTarget g) (enPassantPawn g);
          captured = dest;
          b1 = setCell (board g) (fst to) (snd to) (Some movingPiece);
          b2 = setCell b1 (fst from) (snd from) None;
          b3 = (if isEP
                then (case enPassantPawn g of
                        Some epp \<Rightarrow> setCell b2 (fst epp) (snd epp) None
                      | None \<Rightarrow> b2)
                else b2);
          dir = (if fst movingPiece = CHR ''w'' then - 1 else 1);
          startRow = (if fst movingPiece = CHR ''w'' then SIZE - 2 else 1);
          doubleStep = (snd movingPiece = CHR ''P'' \<and> fst from = startRow
                        \<and> \<bar>fst to - fst from\<bar> = 2 \<and> snd from = snd to);
          promoteRow = (if fst movingPiece = CHR ''w'' then 0 else SIZE - 1);
          didPromote = (snd movingPiece = CHR ''P'' \<and> fst to = promoteRow);
          b4 = (if didPromote then setCell b3 (fst to) (snd to) (Some (fst movingPiece, CHR ''Q''))
                else b3);
          over = (if typeOf captured = Some CHR ''K'' then True else isOver g);
          turn' = (if turn g = CHR ''w'' then CHR ''b'' else CHR ''w'');
          notation = moveNotation (Some (snd movingPiece)) isCapture from to over didPromote isEP
      in \<lparr>board = b4,
          turn = turn',
          moveNumber = (if turn' = CHR ''w'' then moveNumber g + 1 else moveNumber g),
          isOver = over,
          enPassantTarget = (if doubleStep then Some (fst from + dir, snd from) else None),
          enPassantPawn = (if doubleStep then Some (fst to, snd to) else None),
          moves = moves g @ [notation]\<rparr>)"

text \<open>
  The handler of \<^verbatim>\<open>POST /api/move\<close>. The request body may lack \<^verbatim>\<open>from\<close> or \<^verbatim>\<open>to\<close>
  (\<open>None\<close>). The two board reads of lines 240 and 242 come before \<^verbatim>\<open>isValidMove\<close> is
  called, so a TypeError they throw leaves the handler before any verdict. An accepted
  move has a piece at \<^verbatim>\<open>from\<close>; on anything else \<^verbatim>\<open>movingPiece[1]\<close> would throw.
\<close>

datatype response = Rejected reason | Accepted

definition post_move ::
  "game \<Rightarrow> square option \<Rightarrow> square option \<Rightarrow> (exn + response \<times> game) option" where
  "post_move g fromO toO =
     (if isOver g then Some (Inr (Rejected GameOver, g))
      else case (fromO, toO) of
        (Some from, Some to) \<Rightarrow>
          (case cellAt (board g) (fst from) (snd from) of
             Inl e \<Rightarrow> Some (Inl e)
           | Inr piece \<Rightarrow>
               (case cellAt (board g) (fst to) (snd to) of
                  Inl e \<Rightarrow> Some (Inl e)
                | Inr dest \<Rightarrow>
                    (case isValidMove (board g) from to (turn g)
                            (enPassantTarget g) (enPassantPawn g) of
                       None \<Rightarrow> None
                     | Some (Inl e) \<Rightarrow> Some (Inl e)
                     | Some (Inr (Illegal why)) \<Rightarrow> Some (Inr (Rejected why, g))
                     | Some (Inr Ok) \<Rightarrow>
                         (case piece of
                            Cell (Some movingPiece) \<Rightarrow>
                              Some (Inr (Accepted, applyMove g from to movingPiece dest))
                          | _ \<Rightarrow> Some (Inl TypeError)))))
      | _ \<Rightarrow> Some (Inr (Rejected MissingFromTo, g)))"

section \<open>The rules in the words of the specification\<close>

text \<open>
  White's forward direction is decreasing row, Black's increasing row; the starting rank of
  a pawn is row 1 for Black and row \<open>SIZE - 2\<close> for White; its farthest rank is row 0 for
  White and row \<open>SIZE - 1\<close> for Black. As in the program, every colour other than
  \<^verbatim>\<open>"w"\<close> counts as Black.
\<close>

definition forwardDir :: "char \<Rightarrow> int" where
  "forwardDir color = (if color = CHR ''w'' then - 1 else 1)"

definition startRank :: "char \<Rightarrow> int" where
  "startRank color = (if color = CHR ''w'' then SIZE - 2 else 1)"

definition farthestRank :: "char \<Rightarrow> int" where
  "farthestRank color = (if color = CHR ''w'' then 0 else SIZE - 1)"

definition emptyAt :: "board \<Rightarrow> square \<Rightarrow> bool" where
  "emptyAt b sq = (cellAt b (fst sq) (snd sq) = Inr (Cell None))"

definition opposingPieceAt :: "board \<Rightarrow> square \<Rightarrow> char \<Rightarrow> bool" where
  "opposingPieceAt b sq color =
     (case cellAt b (fst sq) (snd sq) of
        Inr (Cell (Some (oc, ot))) \<Rightarrow> oc \<noteq> color
      | _ \<Rightarrow> False)"

definition opposingPawnAt :: "board \<Rightarrow> square \<Rightarrow> char \<Rightarrow> bool" where
  "opposingPawnAt b sq color =
     (case cellAt b (fst sq) (snd sq) of
        Inr (Cell (Some (oc, ot))) \<Rightarrow> ot = CHR ''P'' \<and> oc \<noteq> color
      | _ \<Rightarrow> False)"

definition kingAt :: "board \<Rightarrow> square \<Rightarrow> bool" where
  "kingAt b sq =
     (case cellAt b (fst sq) (snd sq) of
        Inr (Cell (Some (oc, ot))) \<Rightarrow> ot = CHR ''K''
      | _ \<Rightarrow> False)"

definition ownPieceAt :: "board \<Rightarrow> square \<Rightarrow> char \<Rightarrow> bool" where
  "ownPieceAt b sq color =
     (case cellAt b (fst sq) (snd sq) of
        Inr (Cell (Some (oc, ot))) \<Rightarrow> oc = color
      | _ \<Rightarrow> False)"

text \<open>
  The en-passant clause: a one-step forward diagonal onto an empty square that is the
  en-passant target, the victim square being on the origin row and the destination column
  and holding an opposing pawn.
\<close>

definition enPassantRule ::
  "board \<Rightarrow> square \<Rightarrow> square \<Rightarrow> char \<Rightarrow> square option \<Rightarrow> square option \<Rightarrow> bool" where
  "enPassantRule b from to color target victim =
     (\<bar>snd to - snd from\<bar> = 1 \<and> fst to - fst from = forwardDir color
      \<and> emptyAt b to \<and> target = Some to
      \<and> (case victim of
            Some v \<Rightarrow> fst v = fst from \<and> snd v = snd to \<and> opposingPawnAt b v color
          | None \<Rightarrow> False))"

text \<open>The four ways a pawn may move.\<close>

definition pawnRule ::
  "board \<Rightarrow> square \<Rightarrow> square \<Rightarrow> char \<Rightarrow> square option \<Rightarrow> square option \<Rightarrow> bool" where
  "pawnRule b from to color target victim =
     (let dr = fst to - fst from; dc = snd to - snd from; fwd = forwardDir color
      in (dc = 0 \<and> dr = fwd \<and> emptyAt b to)
       \<or> (dc = 0 \<and> dr = 2 * fwd \<and> fst from = startRank color
           \<and> emptyAt b (fst from + fwd, snd from) \<and> emptyAt b to)
       \<or> (\<bar>dc\<bar> = 1 \<and> dr = fwd \<and> opposingPieceAt b to color)
       \<or> enPassantRule b from to color target victim)"

text \<open>
  The value of the handler's constant \<^verbatim>\<open>isEnPassantCapture\<close> for a submission in a state.
\<close>

definition enPassantFlag :: "game \<Rightarrow> square \<Rightarrow> square \<Rightarrow> bool" where
  "enPassantFlag g from to =
     (case (cellAt (board g) (fst from) (snd from), cellAt (board g) (fst to) (snd to)) of
        (Inr piece, Inr dest) \<Rightarrow>
          isEnPassantCapture piece dest from to (enPassantTarget g) (enPassantPawn g)
      | _ \<Rightarrow> False)"

text \<open>
  A pawn two-step advance from its starting rank along a single file, the square it skips
  over, and the en-passant window the specification prescribes after a move.
\<close>

definition isDoubleStep :: "board \<Rightarrow> square \<Rightarrow> square \<Rightarrow> bool" where
  "isDoubleStep b from to =
     (case cellAt b (fst from) (snd from) of
        Inr (Cell (Some (c, ty))) \<Rightarrow>
          ty = CHR ''P'' \<and> fst from = startRank c
          \<and> fst to - fst from = 2 * forwardDir c \<and> snd to = snd from
      | _ \<Rightarrow> False)"

definition skippedSquare :: "square \<Rightarrow> square \<Rightarrow> square" where
  "skippedSquare from to = ((fst from + fst to) div 2, snd from)"

definition windowAfter :: "board \<Rightarrow> square \<Rightarrow> square \<Rightarrow> square option \<times> square option" where
  "windowAfter b from to =
     (if isDoubleStep b from to then (Some (skippedSquare from to), Some to) else (None, None))"

text \<open>
  An attempt at an en-passant capture: a pawn of the side to move steps one square
  diagonally forward onto an empty square.
\<close>

definition enPassantAttempt :: "game \<Rightarrow> square \<Rightarrow> square \<Rightarrow> bool" where
  "enPassantAttempt g from to =
     (inBounds (fst from) (snd from) \<and> inBounds (fst to) (snd to)
      \<and> cellAt (board g) (fst from) (snd from) = Inr (Cell (Some (turn g, CHR ''P'')))
      \<and> \<bar>snd to - snd from\<bar> = 1 \<and> fst to - fst from = forwardDir (turn g)
      \<and> emptyAt (board g) to)"

text \<open>
  The notation of the specification: a square is named by its file letter, counted from
  \<open>a\<close> at column 0, and its rank number \<open>SIZE - row\<close>. A pawn move is the destination
  square, preceded on a capture by the origin file and \<open>x\<close>; another piece gives its
  letter, \<open>x\<close> on a capture, and the destination square. The capture flag says that the
  destination was occupied before the move.
\<close>

definition squareName :: "square \<Rightarrow> string" where
  "squareName sq = char_of (of_char CHR ''a'' + nat (snd sq)) # toString (SIZE - fst sq)"

definition pieceLetter :: "char \<Rightarrow> string" where
  "pieceLetter ty = (if ty \<in> set ''RNBQKA'' then [ty] else [])"

definition describeBase :: "square \<Rightarrow> square \<Rightarrow> char \<Rightarrow> bool \<Rightarrow> string" where
  "describeBase from to ty isCapture =
     (if ty = CHR ''P''
      then (if isCapture then take 1 (squareName from) @ ''x'' @ squareName to
            else squareName to)
      else pieceLetter ty @ (if isCapture then ''x'' else []) @ squareName to)"

text \<open>
  The order of the suffixes as the specification has it: promotion, then game end, then the
  en-passant marker.
\<close>

definition describe_spec ::
  "square \<Rightarrow> square \<Rightarrow> char \<Rightarrow> bool \<Rightarrow> bool \<Rightarrow> bool \<Rightarrow> bool \<Rightarrow> string" where
  "describe_spec from to ty isCapture isPromotion isEnPassant isGameEnding =
     describeBase from to ty isCapture
     @ (if isPromotion then ''=Q'' else [])
     @ (if isGameEnding then ''#'' else [])
     @ (if isEnPassant then '' e.p.'' else [])"

text \<open>The same with the game-end mark before the promotion mark.\<close>

definition describe_endFirst ::
  "square \<Rightarrow> square \<Rightarrow> char \<Rightarrow> bool \<Rightarrow> bool \<Rightarrow> bool \<Rightarrow> bool \<Rightarrow> string" where
  "describe_endFirst from to ty isCapture isPromotion isEnPassant isGameEnding =
     describeBase from to ty isCapture
     @ (if isGameEnding then ''#'' else [])
     @ (if isPromotion then ''=Q'' else [])
     @ (if isEnPassant then '' e.p.'' else [])"

text \<open>
  The classification of a move in a state, for either order: the moving piece, the capture
  flag, promotion (a pawn reaching its farthest rank), the en-passant flag and game end (a
  king on the destination square).
\<close>

definition notationFor ::
  "(square \<Rightarrow> square \<Rightarrow> char \<Rightarrow> bool \<Rightarrow> bool \<Rightarrow> bool \<Rightarrow> bool \<Rightarrow> string)
     \<Rightarrow> game \<Rightarrow> square \<Rightarrow> square \<Rightarrow> string" where
  "notationFor describe g from to =
     (case cellAt (board g) (fst from) (snd from) of
        Inr (Cell (Some (c, ty))) \<Rightarrow>
          describe from to ty (\<not> emptyAt (board g) to)
            (ty = CHR ''P'' \<and> fst to = farthestRank c)
            (enPassantFlag g from to) (kingAt (board g) to)
      | _ \<Rightarrow> [])"

text \<open>
  Two distinct squares on a common row, column or exact diagonal, and the squares strictly
  between them, in the order the walk visits them.
\<close>

definition straight :: "square \<Rightarrow> square \<Rightarrow> bool" where
  "straight from to =
     (from \<noteq> to
      \<and> (fst from = fst to \<or> snd from = snd to
          \<or> \<bar>fst to - fst from\<bar> = \<bar>snd to - snd from\<bar>))"

definition between :: "square \<Rightarrow> square \<Rightarrow> square list" where
  "between from to =
     (let dr = sgn (fst to - fst from);
          dc = sgn (snd to - snd from);
          n = nat (max \<bar>fst to - fst from\<bar> \<bar>snd to - snd from\<bar>)
      in map (\<lambda>k. (fst from + int k * dr, snd from + int k * dc)) [1..<n])"

text \<open>
  A run of accepted moves: the state the handler reaches when every submission of the list
  is accepted in turn (a rejected submission changes nothing, so it is left out).
\<close>

fun acceptedRun :: "game \<Rightarrow> (square \<times> square) list \<Rightarrow> game option" where
  "acceptedRun g [] = Some g"
| "acceptedRun g (m # ms) =
     (case post_move g (Some (fst m)) (Some (snd m)) of
        Some (Inr (Accepted, g')) \<Rightarrow> acceptedRun g' ms
      | _ \<Rightarrow> None)"

text \<open>
  No pawn stands on the rank behind its starting rank (row \<open>SIZE - 1\<close> for White, row 0 for
  Black). This holds of the initial position and pawns only move forward.
\<close>

definition pawnBehind :: "board \<Rightarrow> int \<Rightarrow> int \<Rightarrow> bool" where
  "pawnBehind b i j =
     (case cellAt b i j of
        Inr (Cell (Some (c, ty))) \<Rightarrow> ty = CHR ''P'' \<and> i = startRank c - forwardDir c
      | _ \<Rightarrow> False)"

definition noPawnBehind :: "board \<Rightarrow> bool" where
  "noPawnBehind b =
     list_all (\<lambda>i. list_all (\<lambda>j. \<not> pawnBehind b (int i) (int j)) [0..<10]) [0..<10]"

definition pawnOfSideAt :: "board \<Rightarrow> square \<Rightarrow> char \<Rightarrow> bool" where
  "pawnOfSideAt b sq color =
     (case cellAt b (fst sq) (snd sq) of
        Inr (Cell (Some (c, ty))) \<Rightarrow> ty = CHR ''P'' \<and> forwardDir c = forwardDir color
      | _ \<Rightarrow> False)"

section \<open>Example positions\<close>

definition emptyBoard :: board where
  "emptyBoard = replicate 10 (replicate 10 None)"

text \<open>The opening scenario: White's pawn (8,4) goes to (6,4), Black's pawn (1,4) to (3,4).\<close>

definition afterE4 :: game where
  "afterE4 = applyMove initialGame (8, 4) (6, 4) (CHR ''w'', CHR ''P'') (Cell None)"

definition afterE4E7 :: game where
  "afterE4E7 = applyMove afterE4 (1, 4) (3, 4) (CHR ''b'', CHR ''P'') (Cell None)"

text \<open>A white pawn one step from its last rank, next to the black king.\<close>

definition promotionGame :: game where
  "promotionGame =
     \<lparr>board = setCell (setCell (setCell emptyBoard 1 3 (Some (CHR ''w'', CHR ''P'')))
                 0 4 (Some (CHR ''b'', CHR ''K''))) 9 5 (Some (CHR ''w'', CHR ''K'')),
      turn = CHR ''w'', moveNumber = 30, isOver = False,
      enPassantTarget = None, enPassantPawn = None, moves = []\<rparr>"

text \<open>
  A black pawn about to pass a white pawn: Black's (1,4) goes to (3,4) next to White's (3,3).
  From \<open>epOpen\<close> White either captures en passant at once (\<open>epTaken\<close>) or moves the
  king, after which Black pushes a pawn (\<open>epLate2\<close>).
\<close>

definition boardOf :: "(square \<times> piece) list \<Rightarrow> board" where
  "boardOf ps = foldr (\<lambda>(sq, p) b. setCell b (fst sq) (snd sq) (Some p)) ps emptyBoard"

definition epStart :: game where
  "epStart =
     \<lparr>board = boardOf [((3, 3), (CHR ''w'', CHR ''P'')), ((1, 4), (CHR ''b'', CHR ''P'')),
                       ((1, 0), (CHR ''b'', CHR ''P'')), ((9, 5), (CHR ''w'', CHR ''K'')),
                       ((0, 5), (CHR ''b'', CHR ''K''))],
      turn = CHR ''b'', moveNumber = 12, isOver = False,
      enPassantTarget = None, enPassantPawn = None, moves = []\<rparr>"

definition epOpen :: game where
  "epOpen = applyMove epStart (1, 4) (3, 4) (CHR ''b'', CHR ''P'') (Cell None)"

definition epTaken :: game where
  "epTaken = applyMove epOpen (3, 3) (2, 4) (CHR ''w'', CHR ''P'') (Cell None)"

definition epLate1 :: game where
  "epLate1 = applyMove epOpen (9, 5) (9, 4) (CHR ''w'', CHR ''K'') (Cell None)"

definition epLate2 :: game where
  "epLate2 = applyMove epLate1 (1, 0) (2, 0) (CHR ''b'', CHR ''P'') (Cell None)"

text \<open>The pawn of \<open>promotionGame\<close> takes the king on its last rank.\<close>

definition promotionCaptured :: game where
  "promotionCaptured =
     applyMove promotionGame (1, 3) (0, 4) (CHR ''w'', CHR ''P'') (Cell (Some (CHR ''b'', CHR ''K'')))"

text \<open>The pawn of \<open>promotionGame\<close> pushes to its last rank.\<close>

definition promotionPushed :: game where
  "promotionPushed = applyMove promotionGame (1, 3) (0, 3) (CHR ''w'', CHR ''P'') (Cell None)"

section \<open>Verified properties\<close>

subsection \<open>Reading and writing the board\<close>

lemma cellAt_wf:
  "wf_board b \<Longrightarrow> inBounds i j \<Longrightarrow> cellAt b i j = Inr (Cell (b ! nat i ! nat j))"
  by (auto simp: wf_board_def inBounds_def SIZE_def cellAt_def list_all_length)

lemma length_row_update:
  "n < length b \<Longrightarrow> length (b[k := (b ! k)[m := v]] ! n) = length (b ! n)"
  by (cases "n = k") simp_all

lemma wf_board_setCell [simp]: "wf_board (setCell b i j v) = wf_board b"
  by (simp add: wf_board_def setCell_def list_all_length length_row_update)

lemma nth_row_update:
  "k < length b \<Longrightarrow> m < length (b ! k) \<Longrightarrow>
   b[k := (b ! k)[m := v]] ! k' ! m' = (if k' = k \<and> m' = m then v else b ! k' ! m')"
  by (cases "k' = k"; cases "m' = m") simp_all

lemma cellAt_setCell:
  assumes "wf_board b" "inBounds i j" "inBounds i' j'"
  shows "cellAt (setCell b i j v) i' j'
           = (if i' = i \<and> j' = j then Inr (Cell v) else cellAt b i' j')"
proof -
  from assms have rng: "nat i < length b" "nat j < length (b ! nat i)"
    and pos: "0 \<le> i" "0 \<le> i'" "0 \<le> j" "0 \<le> j'"
    by (auto simp: wf_board_def inBounds_def SIZE_def list_all_length)
  have eqs: "(nat i' = nat i) = (i' = i)" "(nat j' = nat j) = (j' = j)"
    using pos by auto
  have "cellAt (setCell b i j v) i' j' = Inr (Cell (setCell b i j v ! nat i' ! nat j'))"
    using assms by (simp add: cellAt_wf)
  also have "setCell b i j v ! nat i' ! nat j'
               = (if i' = i \<and> j' = j then v else b ! nat i' ! nat j')"
    unfolding setCell_def using rng by (simp add: nth_row_update eqs)
  finally show ?thesis
    using assms by (simp add: cellAt_wf)
qed

subsection \<open>What an accepted move has passed\<close>

lemma isValidMove_OkD:
  assumes "isValidMove b from to t ept epp = Some (Inr Ok)"
  shows "inBounds (fst from) (snd from) \<and> inBounds (fst to) (snd to)
    \<and> (fst from \<noteq> fst to \<or> snd from \<noteq> snd to)
    \<and> (\<exists>pt. cellAt b (fst from) (snd from) = Inr (Cell (Some (t, pt)))
           \<and> (pt = CHR ''P'' \<longrightarrow> isValidPawnMove b from to t ept epp = Inr True))
    \<and> (\<exists>dest. cellAt b (fst to) (snd to) = Inr dest \<and> colorOf dest \<noteq> Some t)"
  using assms
  by (auto simp: isValidMove_def isValidMove_with_def judge_def Let_def
      split: if_splits sum.splits rd.splits option.splits prod.splits)

lemma post_move_AcceptedD:
  assumes "post_move g fromO toO = Some (Inr (Accepted, g'))"
  shows "\<exists>from to mp dest. fromO = Some from \<and> toO = Some to \<and> \<not> isOver g
    \<and> cellAt (board g) (fst from) (snd from) = Inr (Cell (Some mp))
    \<and> cellAt (board g) (fst to) (snd to) = Inr dest
    \<and> isValidMove (board g) from to (turn g) (enPassantTarget g) (enPassantPawn g)
        = Some (Inr Ok)
    \<and> g' = applyMove g from to mp dest"
  using assms
  by (auto simp: post_move_def
      split: if_splits sum.splits rd.splits option.splits prod.splits verdict.splits)

subsection \<open>Rejections\<close>

text \<open>
  C5. A move submission that the handler rejects, for whatever reason (the game is over,
  a square is missing from the request, or the validator refuses the move), returns the
  game state it was given: board, turn, move number, en-passant window, game-over flag and
  history are those of the state before.
\<close>

theorem rejected_move_leaves_state:
  "post_move g fromO toO = Some (Inr (Rejected why, g')) \<Longrightarrow> g' = g"
  by (auto simp: post_move_def
      split: if_splits option.splits sum.splits verdict.splits rd.splits prod.splits)

theorem rejected_move_leaves_state_witness:
  "post_move initialGame (Some (8, 4)) (Some (5, 4))
     = Some (Inr (Rejected IllegalPawn, initialGame))
   \<and> post_move initialGame None (Some (5, 4))
       = Some (Inr (Rejected MissingFromTo, initialGame))
   \<and> post_move promotionCaptured (Some (9, 5)) (Some (8, 5))
       = Some (Inr (Rejected GameOver, promotionCaptured))"
proof -
  have h1: "post_move initialGame (Some (8, 4)) (Some (5, 4))
              = Some (Inr (Rejected IllegalPawn, initialGame))"
    by code_simp
  have h2: "post_move initialGame None (Some (5, 4))
              = Some (Inr (Rejected MissingFromTo, initialGame))"
    by code_simp
  have h3: "post_move promotionCaptured (Some (9, 5)) (Some (8, 5))
              = Some (Inr (Rejected GameOver, promotionCaptured))"
    by code_simp
  from rejected_move_leaves_state [OF h1] rejected_move_leaves_state [OF h2]
    rejected_move_leaves_state [OF h3] h1 h2 h3
  show ?thesis by simp
qed

subsection \<open>Turn and move number\<close>

text \<open>
  C8. After every accepted move the turn is the other colour, and the move number has
  grown by one exactly when the turn is White's again (that is after Black's move). So from
  a state with White to move and move number 1, the accepted move leaves the number at 1
  and the accepted reply makes it 2.
\<close>

theorem turn_flips_and_move_number:
  assumes "post_move g fromO toO = Some (Inr (Accepted, g'))"
  shows "turn g' = (if turn g = CHR ''w'' then CHR ''b'' else CHR ''w'')
       \<and> moveNumber g' = (if turn g' = CHR ''w'' then moveNumber g + 1 else moveNumber g)
       \<and> (\<forall>f2 t2 g''. turn g = CHR ''w'' \<and> moveNumber g = 1
             \<and> post_move g' f2 t2 = Some (Inr (Accepted, g''))
            \<longrightarrow> moveNumber g' = 1 \<and> turn g' = CHR ''b''
                \<and> moveNumber g'' = 2 \<and> turn g'' = CHR ''w'')"
proof -
  have step: "turn h' = (if turn h = CHR ''w'' then CHR ''b'' else CHR ''w'')
       \<and> moveNumber h' = (if turn h' = CHR ''w'' then moveNumber h + 1 else moveNumber h)"
    if "post_move h fO tO = Some (Inr (Accepted, h'))" for h h' fO tO
    using post_move_AcceptedD [OF that] by (auto simp: applyMove_def Let_def)
  show ?thesis
    using step [OF assms] by (auto dest: step)
qed

theorem turn_flips_and_move_number_witness:
  "post_move initialGame (Some (8, 4)) (Some (6, 4)) = Some (Inr (Accepted, afterE4))
   \<and> post_move afterE4 (Some (1, 4)) (Some (3, 4)) = Some (Inr (Accepted, afterE4E7))
   \<and> turn initialGame = CHR ''w'' \<and> moveNumber initialGame = 1
   \<and> turn afterE4 = CHR ''b'' \<and> moveNumber afterE4 = 1
   \<and> turn afterE4E7 = CHR ''w'' \<and> moveNumber afterE4E7 = 2"
proof -
  have h1: "post_move initialGame (Some (8, 4)) (Some (6, 4)) = Some (Inr (Accepted, afterE4))"
    by code_simp
  have h2: "post_move afterE4 (Some (1, 4)) (Some (3, 4)) = Some (Inr (Accepted, afterE4E7))"
    by code_simp
  have h0: "turn initialGame = CHR ''w'' \<and> moveNumber initialGame = 1"
    by (simp add: initialGame_def)
  from turn_flips_and_move_number [OF h1] h0 h1 h2 show ?thesis
    by auto
qed

subsection \<open>The pawn validator\<close>

lemma forwardDir_nonzero: "forwardDir c = 1 \<or> forwardDir c = - 1"
  by (simp add: forwardDir_def)

lemma isValidPawnMove_alt:
  "isValidPawnMove b from to color ept epp =
     (case cellAt b (fst to) (snd to) of
        Inl e \<Rightarrow> Inl e
      | Inr target \<Rightarrow>
          if snd to - snd from = 0 then
            (if fst to - fst from = forwardDir color \<and> target = Cell None then Inr True
             else if fst from = startRank color \<and> fst to - fst from = 2 * forwardDir color then
               (if target = Cell None
                then (case cellAt b (fst from + forwardDir color) (snd from) of
                        Inl e \<Rightarrow> Inl e
                      | Inr mid \<Rightarrow> Inr (mid = Cell None))
                else Inr False)
             else Inr False)
          else if \<bar>snd to - snd from\<bar> = 1 \<and> fst to - fst from = forwardDir color then
            (if target \<noteq> Cell None \<and> colorOf target \<noteq> Some color then Inr True
             else (case (ept, epp) of
                     (Some t, Some p) \<Rightarrow>
                       if target = Cell None \<and> fst to = fst t \<and> snd to = snd t
                          \<and> fst p = fst from \<and> snd p = snd to
                       then (case cellAt b (fst p) (snd p) of
                               Inl e \<Rightarrow> Inl e
                             | Inr victim \<Rightarrow>
                                 Inr (case victim of
                                        Cell (Some (vcol, vty)) \<Rightarrow>
                                          vty = CHR ''P'' \<and> vcol \<noteq> color
                                      | _ \<Rightarrow> False))
                       else Inr False
                   | _ \<Rightarrow> Inr False))
          else Inr False)"
  unfolding isValidPawnMove_def forwardDir_def startRank_def Let_def ..

lemma isValidPawnMove_rule:
  assumes "wf_board b" "inBounds (fst from) (snd from)" "inBounds (fst to) (snd to)"
  shows "isValidPawnMove b from to color ept epp = Inr (pawnRule b from to color ept epp)"
proof -
  obtain x where x: "cellAt b (fst to) (snd to) = Inr (Cell x)"
    using assms by (simp add: cellAt_wf)
  have mid: "\<exists>y. cellAt b (fst from + forwardDir color) (snd from) = Inr (Cell y)"
    if "fst from = startRank color"
  proof -
    have "inBounds (fst from + forwardDir color) (snd from)"
      using assms(2) that by (auto simp: inBounds_def SIZE_def forwardDir_def startRank_def)
    from cellAt_wf [OF assms(1) this] show ?thesis by blast
  qed
  have vic: "\<exists>y. cellAt b (fst from) (snd to) = Inr (Cell y)"
  proof -
    have "inBounds (fst from) (snd to)"
      using assms(2,3) by (auto simp: inBounds_def)
    from cellAt_wf [OF assms(1) this] show ?thesis by blast
  qed
  show ?thesis
  proof (cases "snd to - snd from = 0")
    case True
    then have nodiag: "\<bar>snd to - snd from\<bar> \<noteq> 1" by simp
    show ?thesis
    proof (cases "fst from = startRank color")
      case start: True
      from mid [OF start] obtain y
        where y: "cellAt b (fst from + forwardDir color) (snd from) = Inr (Cell y)" ..
      show ?thesis
        using True nodiag x y start
        by (simp add: isValidPawnMove_alt pawnRule_def enPassantRule_def Let_def emptyAt_def)
    next
      case False
      then show ?thesis
        using True nodiag x
        by (simp add: isValidPawnMove_alt pawnRule_def enPassantRule_def Let_def emptyAt_def)
    qed
  next
    case False
    from vic obtain y where y: "cellAt b (fst from) (snd to) = Inr (Cell y)" ..
    show ?thesis
    proof (cases "\<bar>snd to - snd from\<bar> = 1 \<and> fst to - fst from = forwardDir color")
      case shape: True
      show ?thesis
      proof (cases x)
        case None
        show ?thesis
        proof (cases "ept = Some to \<and> (\<exists>p. epp = Some p \<and> fst p = fst from \<and> snd p = snd to)")
          case True
          then obtain p where p: "epp = Some p" "fst p = fst from" "snd p = snd to" by blast
          show ?thesis
            using False shape x y None True p
            by (auto simp: isValidPawnMove_alt pawnRule_def enPassantRule_def Let_def emptyAt_def
                opposingPieceAt_def opposingPawnAt_def split: option.splits prod.splits)
        next
          case noep: False
          have "\<not> enPassantRule b from to color ept epp"
            using noep by (auto simp: enPassantRule_def split: option.splits)
          moreover have "isValidPawnMove b from to color ept epp = Inr False"
            using False shape x None noep
            by (auto simp: isValidPawnMove_alt prod_eq_iff split: option.splits)
          ultimately show ?thesis
            using False shape x None
            by (simp add: pawnRule_def Let_def opposingPieceAt_def)
        qed
      next
        case (Some pc)
        obtain oc ot where pc: "pc = (oc, ot)" by (cases pc)
        have "\<not> enPassantRule b from to color ept epp"
          using x Some by (simp add: enPassantRule_def emptyAt_def)
        then show ?thesis
          using False shape x Some pc
          by (auto simp: isValidPawnMove_alt pawnRule_def Let_def emptyAt_def
              opposingPieceAt_def split: option.splits)
      qed
    next
      case noshape: False
      have "\<not> enPassantRule b from to color ept epp"
        using noshape by (auto simp: enPassantRule_def)
      then show ?thesis
        using False noshape x
        by (auto simp: isValidPawnMove_alt pawnRule_def Let_def)
    qed
  qed
qed


lemma pawnRule_needs_room:
  assumes "pawnRule b from to color ept epp"
  shows "from \<noteq> to \<and> \<not> ownPieceAt b to color"
proof -
  have "fst to - fst from \<noteq> 0" 
    using assms forwardDir_nonzero [of color]
    by (auto simp: pawnRule_def enPassantRule_def Let_def)
  moreover have "\<not> ownPieceAt b to color"
    using assms
    by (auto simp: pawnRule_def enPassantRule_def Let_def ownPieceAt_def emptyAt_def
        opposingPieceAt_def split: sum.splits rd.splits option.splits)
  ultimately show ?thesis by auto
qed

lemma isValidMove_pawn:
  assumes wf: "wf_board b"
    and inb: "inBounds (fst from) (snd from)" "inBounds (fst to) (snd to)"
    and mover: "cellAt b (fst from) (snd from) = Inr (Cell (Some (color, CHR ''P'')))"
  shows "isValidMove b from to color ept epp
           = Some (Inr (if from = to then Illegal SameSquare
                        else if ownPieceAt b to color then Illegal OwnCapture
                        else if pawnRule b from to color ept epp then Ok
                        else Illegal IllegalPawn))"
proof -
  obtain x where x: "cellAt b (fst to) (snd to) = Inr (Cell x)"
    using wf inb by (simp add: cellAt_wf)
  have own: "ownPieceAt b to color = (colorOf (Cell x) = Some color)"
    using x by (cases x) (auto simp: ownPieceAt_def)
  show ?thesis
    using inb mover x
    by (simp add: isValidMove_def isValidMove_with_def isValidPawnMove_rule [OF wf inb]
        own judge_def prod_eq_iff)
qed


text \<open>
  C1. On a 10 by 10 board, for squares inside it (which is what \<^verbatim>\<open>isValidMove\<close> has
  checked before it calls the pawn validator), \<^verbatim>\<open>isValidPawnMove\<close> returns without
  throwing, and returns true exactly for the four kinds of move of the specification: the
  one-step push into an empty square, the two-step push from the starting rank through an
  empty square into an empty square, the one-step forward diagonal onto an opposing piece,
  and the en-passant capture. Every other pawn move is refused: for a pawn of the colour to
  move, \<^verbatim>\<open>isValidMove\<close> accepts exactly those moves, and answers any other move to a
  different square not held by a piece of the same colour with "Illegal pawn move.".
\<close>

theorem pawn_validator_exact:
  assumes "wf_board b" "inBounds (fst from) (snd from)" "inBounds (fst to) (snd to)"
  shows "isValidPawnMove b from to color ept epp = Inr (pawnRule b from to color ept epp)
       \<and> (cellAt b (fst from) (snd from) = Inr (Cell (Some (color, CHR ''P'')))
            \<longrightarrow> isValidMove b from to color ept epp
                  = Some (Inr (if from = to then Illegal SameSquare
                               else if ownPieceAt b to color then Illegal OwnCapture
                               else if pawnRule b from to color ept epp then Ok
                               else Illegal IllegalPawn)))"
  using isValidPawnMove_rule [OF assms] isValidMove_pawn [OF assms] by blast

theorem pawn_validator_exact_witness:
  "isValidPawnMove initialBoard (8, 4) (6, 4) CHR ''w'' None None = Inr True
   \<and> pawnRule initialBoard (8, 4) (6, 4) CHR ''w'' None None
   \<and> isValidMove initialBoard (8, 4) (6, 4) CHR ''w'' None None = Some (Inr Ok)
   \<and> isValidPawnMove initialBoard (8, 4) (5, 4) CHR ''w'' None None = Inr False
   \<and> \<not> pawnRule initialBoard (8, 4) (5, 4) CHR ''w'' None None
   \<and> isValidMove initialBoard (8, 4) (5, 4) CHR ''w'' None None
       = Some (Inr (Illegal IllegalPawn))"
proof -
  have wf: "wf_board initialBoard" by code_simp
  have a: "inBounds (fst (8 :: int, 4 :: int)) (snd (8 :: int, 4 :: int))" by code_simp
  have b: "inBounds (fst (6 :: int, 4 :: int)) (snd (6 :: int, 4 :: int))" by code_simp
  have c: "inBounds (fst (5 :: int, 4 :: int)) (snd (5 :: int, 4 :: int))" by code_simp
  have mover: "cellAt initialBoard (fst (8 :: int, 4 :: int)) (snd (8 :: int, 4 :: int))
                 = Inr (Cell (Some (CHR ''w'', CHR ''P'')))" by code_simp
  have free: "\<not> ownPieceAt initialBoard (6, 4) CHR ''w''"
    "\<not> ownPieceAt initialBoard (5, 4) CHR ''w''" by code_simp+
  have v1: "isValidPawnMove initialBoard (8, 4) (6, 4) CHR ''w'' None None = Inr True"
    by code_simp
  have v2: "isValidPawnMove initialBoard (8, 4) (5, 4) CHR ''w'' None None = Inr False"
    by code_simp
  from pawn_validator_exact [OF wf a b, of "CHR ''w''" None None]
    pawn_validator_exact [OF wf a c, of "CHR ''w''" None None] mover free v1 v2
  show ?thesis by simp
qed

subsection \<open>The en-passant classification\<close>

lemma isValidPawnMove_onto_empty:
  assumes "isValidPawnMove b from to color ept epp = Inr True"
    and "cellAt b (fst to) (snd to) = Inr (Cell None)"
    and "snd to \<noteq> snd from"
  shows "enPassantRule b from to color ept epp"
  using assms
  by (auto simp: isValidPawnMove_alt enPassantRule_def emptyAt_def opposingPawnAt_def prod_eq_iff
      split: if_splits option.splits sum.splits rd.splits prod.splits)

lemma isValidPawnMove_straight:
  assumes "isValidPawnMove b from to color ept epp = Inr True"
    and "snd to = snd from"
  shows "fst to - fst from = forwardDir color
       \<or> (fst from = startRank color \<and> fst to - fst from = 2 * forwardDir color)"
  using assms
  by (auto simp: isValidPawnMove_alt split: if_splits option.splits sum.splits)

lemma isEnPassantCapture_rule:
  assumes "cellAt b (fst from) (snd from) = Inr (Cell (Some (col, ty)))"
    and "cellAt b (fst to) (snd to) = Inr dest"
  shows "isEnPassantCapture (Cell (Some (col, ty))) dest from to ept epp
     \<longleftrightarrow> ty = CHR ''P'' \<and> \<bar>snd to - snd from\<bar> = 1 \<and> fst to - fst from = forwardDir col
         \<and> emptyAt b to \<and> ept = Some to
         \<and> (\<exists>v. epp = Some v \<and> fst v = fst from \<and> snd v = snd to)"
  using assms
  by (cases ept; cases epp)
    (auto simp: isEnPassantCapture_def forwardDir_def emptyAt_def prod_eq_iff)


lemma board_applyMove:
  "board (applyMove g from to mp dest) =
     (let b2 = setCell (setCell (board g) (fst to) (snd to) (Some mp)) (fst from) (snd from) None;
          b3 = (if isEnPassantCapture (Cell (Some mp)) dest from to
                     (enPassantTarget g) (enPassantPawn g)
                then (case enPassantPawn g of
                        Some v \<Rightarrow> setCell b2 (fst v) (snd v) None
                      | None \<Rightarrow> b2)
                else b2)
      in if snd mp = CHR ''P'' \<and> fst to = farthestRank (fst mp)
         then setCell b3 (fst to) (snd to) (Some (fst mp, CHR ''Q''))
         else b3)"
  by (simp add: applyMove_def Let_def farthestRank_def)

lemma accepted_en_passant:
  assumes ok: "isValidMove b from to t ept epp = Some (Inr Ok)"
    and mover: "cellAt b (fst from) (snd from) = Inr (Cell (Some (c, ty)))"
    and dest: "cellAt b (fst to) (snd to) = Inr dest"
  shows "isEnPassantCapture (Cell (Some (c, ty))) dest from to ept epp
           \<longleftrightarrow> ty = CHR ''P'' \<and> enPassantRule b from to c ept epp"
proof
  assume flag: "isEnPassantCapture (Cell (Some (c, ty))) dest from to ept epp"
  then have f: "ty = CHR ''P''" "\<bar>snd to - snd from\<bar> = 1" "emptyAt b to"
    using isEnPassantCapture_rule [OF mover dest] by auto
  from isValidMove_OkD [OF ok] mover f(1)
  have v: "isValidPawnMove b from to c ept epp = Inr True" by auto
  from f(2) have "snd to \<noteq> snd from" by auto
  with isValidPawnMove_onto_empty [OF v] f(3)
  show "ty = CHR ''P'' \<and> enPassantRule b from to c ept epp"
    using f(1) by (simp add: emptyAt_def)
next
  assume "ty = CHR ''P'' \<and> enPassantRule b from to c ept epp"
  then show "isEnPassantCapture (Cell (Some (c, ty))) dest from to ept epp"
    unfolding isEnPassantCapture_rule [OF mover dest]
    by (auto simp: enPassantRule_def split: option.splits)
qed

text \<open>
  C10. For an accepted move, the handler's flag \<^verbatim>\<open>isEnPassantCapture\<close> is true exactly when
  the moving piece is a pawn and the validator's en-passant clause holds. So whenever the
  removal branch runs, the en-passant victim square exists, held a pawn of the colour
  opposing the mover before the move, and is empty afterwards.
\<close>

theorem en_passant_flag_matches_validator:
  assumes acc: "post_move g (Some from) (Some to) = Some (Inr (Accepted, g'))"
    and mover: "cellAt (board g) (fst from) (snd from) = Inr (Cell (Some (c, ty)))"
  shows "(enPassantFlag g from to
            \<longleftrightarrow> ty = CHR ''P''
                \<and> enPassantRule (board g) from to c (enPassantTarget g) (enPassantPawn g))
       \<and> (enPassantFlag g from to
            \<longrightarrow> (\<exists>v. enPassantPawn g = Some v \<and> opposingPawnAt (board g) v c
                     \<and> (wf_board (board g) \<longrightarrow> emptyAt (board g') v)))"
proof -
  from post_move_AcceptedD [OF acc] mover obtain dest
    where dest: "cellAt (board g) (fst to) (snd to) = Inr dest"
      and ok: "isValidMove (board g) from to (turn g) (enPassantTarget g) (enPassantPawn g)
                 = Some (Inr Ok)"
      and g': "g' = applyMove g from to (c, ty) dest"
    by auto
  have flag: "enPassantFlag g from to
                = isEnPassantCapture (Cell (Some (c, ty))) dest from to
                    (enPassantTarget g) (enPassantPawn g)"
    by (simp add: enPassantFlag_def mover dest)
  note iff = accepted_en_passant [OF ok mover dest]
  have removal: "\<exists>v. enPassantPawn g = Some v \<and> opposingPawnAt (board g) v c
                     \<and> (wf_board (board g) \<longrightarrow> emptyAt (board g') v)"
    if fl: "enPassantFlag g from to"
  proof -
    from fl flag iff have pawn: "ty = CHR ''P''"
      and rule: "enPassantRule (board g) from to c (enPassantTarget g) (enPassantPawn g)"
      by auto
    from rule obtain v where v: "enPassantPawn g = Some v" "fst v = fst from" "snd v = snd to"
      "opposingPawnAt (board g) v c" "fst to - fst from = forwardDir c"
      by (auto simp: enPassantRule_def split: option.splits)
    from isValidMove_OkD [OF ok]
    have inb: "inBounds (fst from) (snd from)" "inBounds (fst to) (snd to)" by auto
    then have inv: "inBounds (fst v) (snd v)"
      using v by (simp add: inBounds_def)
    have ne: "fst to \<noteq> fst v"
      using v forwardDir_nonzero [of c] by auto
    have "emptyAt (board g') v" if wf: "wf_board (board g)"
    proof -
      define b3 where "b3 = setCell (setCell (setCell (board g) (fst to) (snd to) (Some (c, ty)))
                                       (fst from) (snd from) None) (fst v) (snd v) None"
      have wf3: "wf_board b3" using wf by (simp add: b3_def)
      have e3: "cellAt b3 (fst v) (snd v) = Inr (Cell None)"
        using wf inv by (simp add: b3_def cellAt_setCell)
      have "board g' = b3 \<or> board g' = setCell b3 (fst to) (snd to) (Some (c, CHR ''Q''))"
        using fl flag v(1) by (simp add: g' board_applyMove Let_def b3_def)
      then show ?thesis
        using e3 wf3 inv inb(2) ne by (auto simp: emptyAt_def cellAt_setCell)
    qed
    with v show ?thesis by blast
  qed
  show ?thesis
    using flag iff removal by blast
qed

theorem en_passant_flag_matches_validator_witness:
  "post_move epOpen (Some (3, 3)) (Some (2, 4)) = Some (Inr (Accepted, epTaken))
   \<and> cellAt (board epOpen) 3 3 = Inr (Cell (Some (CHR ''w'', CHR ''P'')))
   \<and> wf_board (board epOpen)
   \<and> enPassantFlag epOpen (3, 3) (2, 4)
   \<and> enPassantRule (board epOpen) (3, 3) (2, 4) CHR ''w''
        (enPassantTarget epOpen) (enPassantPawn epOpen)
   \<and> enPassantPawn epOpen = Some (3, 4)
   \<and> opposingPawnAt (board epOpen) (3, 4) CHR ''w''
   \<and> emptyAt (board epTaken) (3, 4)"
proof -
  have acc: "post_move epOpen (Some (3, 3)) (Some (2, 4)) = Some (Inr (Accepted, epTaken))"
    by code_simp
  have mover: "cellAt (board epOpen) (fst (3 :: int, 3 :: int)) (snd (3 :: int, 3 :: int))
                 = Inr (Cell (Some (CHR ''w'', CHR ''P'')))"
    by code_simp
  have wf: "wf_board (board epOpen)" by code_simp
  have fl: "enPassantFlag epOpen (3, 3) (2, 4)" by code_simp
  have v: "enPassantPawn epOpen = Some (3, 4)" by code_simp
  from en_passant_flag_matches_validator [OF acc mover] acc mover wf fl v
  show ?thesis by auto
qed

subsection \<open>King capture and the end of the game\<close>

text \<open>
  C4. An accepted move that captures a king (the piece on the destination square, or the
  piece an en-passant removal takes away) sets the game-over flag. In a state whose
  game-over flag is set, every submission is answered with the game-over rejection and the
  state it was given, whatever the squares are.
\<close>

theorem king_capture_ends_game:
  "(post_move g (Some from) (Some to) = Some (Inr (Accepted, g'))
      \<and> (kingAt (board g) to
          \<or> (enPassantFlag g from to \<and> (\<exists>v. enPassantPawn g = Some v \<and> kingAt (board g) v)))
     \<longrightarrow> isOver g')
   \<and> (isOver g \<longrightarrow> post_move g fromO toO = Some (Inr (Rejected GameOver, g)))"
proof (intro conjI impI)
  assume "isOver g"
  then show "post_move g fromO toO = Some (Inr (Rejected GameOver, g))"
    by (simp add: post_move_def)
next
  assume h: "post_move g (Some from) (Some to) = Some (Inr (Accepted, g'))
      \<and> (kingAt (board g) to
          \<or> (enPassantFlag g from to \<and> (\<exists>v. enPassantPawn g = Some v \<and> kingAt (board g) v)))"
  then have acc: "post_move g (Some from) (Some to) = Some (Inr (Accepted, g'))" ..
  from post_move_AcceptedD [OF acc] obtain mp dest
    where mover: "cellAt (board g) (fst from) (snd from) = Inr (Cell (Some mp))"
      and dest: "cellAt (board g) (fst to) (snd to) = Inr dest"
      and ok: "isValidMove (board g) from to (turn g) (enPassantTarget g) (enPassantPawn g)
                 = Some (Inr Ok)"
      and g': "g' = applyMove g from to mp dest"
    by auto
  obtain c ty where mp: "mp = (c, ty)" by (cases mp)
  have over: "isOver g'" if "kingAt (board g) to"
    using that dest by (auto simp: g' applyMove_def Let_def kingAt_def split: rd.splits option.splits)
  have "\<not> (enPassantFlag g from to \<and> (\<exists>v. enPassantPawn g = Some v \<and> kingAt (board g) v))"
  proof
    assume a: "enPassantFlag g from to \<and> (\<exists>v. enPassantPawn g = Some v \<and> kingAt (board g) v)"
    then have "isEnPassantCapture (Cell (Some (c, ty))) dest from to
                 (enPassantTarget g) (enPassantPawn g)"
      by (simp add: enPassantFlag_def mover dest mp)
    with accepted_en_passant [OF ok mover [unfolded mp] dest]
    have "enPassantRule (board g) from to c (enPassantTarget g) (enPassantPawn g)" by simp
    with a show False
      by (auto simp: enPassantRule_def opposingPawnAt_def kingAt_def
          split: option.splits sum.splits rd.splits prod.splits)
  qed
  with h over show "isOver g'" by blast
qed

theorem king_capture_ends_game_witness:
  "post_move promotionGame (Some (1, 3)) (Some (0, 4)) = Some (Inr (Accepted, promotionCaptured))
   \<and> kingAt (board promotionGame) (0, 4)
   \<and> isOver promotionCaptured
   \<and> post_move promotionCaptured (Some (9, 5)) (Some (8, 5))
       = Some (Inr (Rejected GameOver, promotionCaptured))"
proof -
  have acc: "post_move promotionGame (Some (1, 3)) (Some (0, 4))
               = Some (Inr (Accepted, promotionCaptured))"
    by code_simp
  have k: "kingAt (board promotionGame) (0, 4)" by code_simp
  from king_capture_ends_game [of promotionGame "(1, 3)" "(0, 4)" promotionCaptured] acc k
  have over: "isOver promotionCaptured" by blast
  from king_capture_ends_game [of promotionCaptured _ _ _ "Some (9, 5)" "Some (8, 5)"] over
  have "post_move promotionCaptured (Some (9, 5)) (Some (8, 5))
          = Some (Inr (Rejected GameOver, promotionCaptured))" by blast
  with acc k over show ?thesis by simp
qed

subsection \<open>Promotion\<close>

lemma applyMove_destination:
  assumes wf: "wf_board (board g)"
    and ok: "isValidMove (board g) from to (turn g) (enPassantTarget g) (enPassantPawn g)
               = Some (Inr Ok)"
    and mover: "cellAt (board g) (fst from) (snd from) = Inr (Cell (Some (c, ty)))"
    and dest: "cellAt (board g) (fst to) (snd to) = Inr dest"
  shows "cellAt (board (applyMove g from to (c, ty) dest)) (fst to) (snd to)
           = Inr (Cell (Some (c, if ty = CHR ''P'' \<and> fst to = farthestRank c
                                 then CHR ''Q'' else ty)))"
proof -
  from isValidMove_OkD [OF ok]
  have inb: "inBounds (fst from) (snd from)" "inBounds (fst to) (snd to)"
    and ne: "fst from \<noteq> fst to \<or> snd from \<noteq> snd to" by auto
  define b2 where "b2 = setCell (setCell (board g) (fst to) (snd to) (Some (c, ty)))
                           (fst from) (snd from) None"
  define b3 where "b3 = (if isEnPassantCapture (Cell (Some (c, ty))) dest from to
                              (enPassantTarget g) (enPassantPawn g)
                         then (case enPassantPawn g of
                                 Some v \<Rightarrow> setCell b2 (fst v) (snd v) None
                               | None \<Rightarrow> b2)
                         else b2)"
  have wf2: "wf_board b2" using wf by (simp add: b2_def)
  have c2: "cellAt b2 (fst to) (snd to) = Inr (Cell (Some (c, ty)))"
    using wf inb ne by (auto simp: b2_def cellAt_setCell)
  have wf3: "wf_board b3" using wf2 by (simp add: b3_def split: option.splits)
  have c3: "cellAt b3 (fst to) (snd to) = Inr (Cell (Some (c, ty)))"
  proof (cases "isEnPassantCapture (Cell (Some (c, ty))) dest from to
                  (enPassantTarget g) (enPassantPawn g)")
    case False
    then show ?thesis using c2 by (simp add: b3_def)
  next
    case True
    with isEnPassantCapture_rule [OF mover dest] obtain v
      where v: "enPassantPawn g = Some v" "fst v = fst from" "snd v = snd to"
        "fst to - fst from = forwardDir c"
      by auto
    have "inBounds (fst v) (snd v)" using inb v by (simp add: inBounds_def)
    moreover have "fst to \<noteq> fst v" using v forwardDir_nonzero [of c] by auto
    ultimately show ?thesis
      using True v(1) wf2 inb c2 by (simp add: b3_def cellAt_setCell)
  qed
  have "board (applyMove g from to (c, ty) dest)
          = (if ty = CHR ''P'' \<and> fst to = farthestRank c
             then setCell b3 (fst to) (snd to) (Some (c, CHR ''Q'')) else b3)"
    by (simp only: board_applyMove Let_def b2_def b3_def fst_conv snd_conv)
  moreover have "cellAt (setCell b3 (fst to) (snd to) (Some (c, CHR ''Q''))) (fst to) (snd to)
                   = Inr (Cell (Some (c, CHR ''Q'')))"
    using wf3 inb(2) by (simp add: cellAt_setCell)
  ultimately show ?thesis
    using c3 by (cases "ty = CHR ''P'' \<and> fst to = farthestRank c") simp_all
qed

text \<open>
  C6. After an accepted move of a piece of colour \<open>c\<close> and type \<open>ty\<close>, the destination
  square holds a piece of colour \<open>c\<close>: a queen when the piece is a pawn and the destination
  row is the farthest rank of its colour (row 0 for White, row \<open>SIZE - 1\<close> for Black),
  whether the pawn pushed or captured, and otherwise the very piece that moved. So a pawn
  is replaced by nothing but a queen, and only on that rank.
\<close>

theorem promotion_to_queen_only:
  assumes "wf_board (board g)"
    and "post_move g (Some from) (Some to) = Some (Inr (Accepted, g'))"
    and "cellAt (board g) (fst from) (snd from) = Inr (Cell (Some (c, ty)))"
  shows "cellAt (board g') (fst to) (snd to)
           = Inr (Cell (Some (c, if ty = CHR ''P'' \<and> fst to = farthestRank c
                                 then CHR ''Q'' else ty)))"
proof -
  from post_move_AcceptedD [OF assms(2)] assms(3) obtain dest
    where "cellAt (board g) (fst to) (snd to) = Inr dest"
      and "isValidMove (board g) from to (turn g) (enPassantTarget g) (enPassantPawn g)
             = Some (Inr Ok)"
      and "g' = applyMove g from to (c, ty) dest"
    by auto
  with applyMove_destination [OF assms(1) _ assms(3)] show ?thesis by simp
qed

theorem promotion_to_queen_only_witness:
  "wf_board (board promotionGame)
   \<and> post_move promotionGame (Some (1, 3)) (Some (0, 3)) = Some (Inr (Accepted, promotionPushed))
   \<and> cellAt (board promotionGame) 1 3 = Inr (Cell (Some (CHR ''w'', CHR ''P'')))
   \<and> farthestRank CHR ''w'' = 0
   \<and> cellAt (board promotionPushed) 0 3 = Inr (Cell (Some (CHR ''w'', CHR ''Q'')))"
proof -
  have wf: "wf_board (board promotionGame)" by code_simp
  have acc: "post_move promotionGame (Some (1, 3)) (Some (0, 3))
               = Some (Inr (Accepted, promotionPushed))"
    by code_simp
  have mover: "cellAt (board promotionGame) (fst (1 :: int, 3 :: int)) (snd (1 :: int, 3 :: int))
                 = Inr (Cell (Some (CHR ''w'', CHR ''P'')))"
    by code_simp
  have far: "farthestRank CHR ''w'' = 0" by (simp add: farthestRank_def)
  from promotion_to_queen_only [OF wf acc mover] wf acc mover far
  show ?thesis by simp
qed

subsection \<open>The board keeps its shape\<close>

text \<open>
  The 10 by 10 shape assumed of the board is an invariant of the program: the initial board
  has it, and every answer of the handler returns a board that has it. The initial board
  also has no pawn behind its starting rank, which accepted moves preserve
  (\<open>accepted_keeps_noPawnBehind\<close> below).
\<close>

lemma wf_initialBoard: "wf_board (board initialGame)"
  by code_simp

lemma initial_noPawnBehind: "noPawnBehind (board initialGame)"
  by code_simp

lemma post_move_keeps_shape:
  assumes "wf_board (board g)" "post_move g fromO toO = Some (Inr (r, g'))"
  shows "wf_board (board g')"
proof (cases r)
  case (Rejected why)
  with assms(2) have "g' = g"
    by (auto simp: post_move_def
        split: if_splits option.splits sum.splits verdict.splits rd.splits prod.splits)
  with assms(1) show ?thesis by simp
next
  case Accepted
  with post_move_AcceptedD [of g fromO toO g'] assms(2) obtain src dst mp dest
    where "g' = applyMove g src dst mp dest" by auto
  with assms(1) show ?thesis
    by (simp add: board_applyMove Let_def split: option.splits)
qed

subsection \<open>The en-passant window\<close>

lemma window_applyMove:
  "(enPassantTarget (applyMove g from to (c, ty) dest),
    enPassantPawn (applyMove g from to (c, ty) dest))
     = (if ty = CHR ''P'' \<and> fst from = startRank c \<and> \<bar>fst to - fst from\<bar> = 2
           \<and> snd from = snd to
        then (Some (fst from + forwardDir c, snd from), Some to) else (None, None))"
  by (cases "c = CHR ''w''") (auto simp: applyMove_def Let_def startRank_def forwardDir_def)

lemma accepted_window:
  assumes ok: "isValidMove b from to t ept epp = Some (Inr Ok)"
    and mover: "cellAt b (fst from) (snd from) = Inr (Cell (Some (c, ty)))"
  shows "(if ty = CHR ''P'' \<and> fst from = startRank c \<and> \<bar>fst to - fst from\<bar> = 2
             \<and> snd from = snd to
          then (Some (fst from + forwardDir c, snd from), Some to) else (None, None))
         = windowAfter b from to"
proof (cases "ty = CHR ''P'' \<and> snd from = snd to")
  case True
  with isValidMove_OkD [OF ok] mover
  have "isValidPawnMove b from to c ept epp = Inr True" by auto
  from isValidPawnMove_straight [OF this] True
  have "fst to - fst from = forwardDir c
      \<or> (fst from = startRank c \<and> fst to - fst from = 2 * forwardDir c)" by simp
  then show ?thesis
    using True mover forwardDir_nonzero [of c]
    by (auto simp: windowAfter_def isDoubleStep_def skippedSquare_def)
next
  case False
  then show ?thesis
    using mover by (auto simp: windowAfter_def isDoubleStep_def)
qed

lemma attempt_without_window:
  assumes att: "enPassantAttempt h from to"
    and no: "enPassantTarget h \<noteq> Some to"
  shows "isValidMove (board h) from to (turn h) (enPassantTarget h) (enPassantPawn h)
           = Some (Inr (Illegal IllegalPawn))"
proof -
  from att have inb: "inBounds (fst from) (snd from)" "inBounds (fst to) (snd to)"
    and mover: "cellAt (board h) (fst from) (snd from) = Inr (Cell (Some (turn h, CHR ''P'')))"
    and dest: "cellAt (board h) (fst to) (snd to) = Inr (Cell None)"
    and shape: "\<bar>snd to - snd from\<bar> = 1" "fst to - fst from = forwardDir (turn h)"
    by (auto simp: enPassantAttempt_def emptyAt_def)
  from shape(1) have ne: "snd to - snd from \<noteq> 0" "snd from \<noteq> snd to" by auto
  have "isValidPawnMove (board h) from to (turn h) (enPassantTarget h) (enPassantPawn h)
          = Inr False"
    using dest shape ne no
    by (auto simp: isValidPawnMove_alt prod_eq_iff split: option.splits)
  then show ?thesis
    using inb mover dest ne(2)
    by (simp add: isValidMove_def isValidMove_with_def judge_def)
qed

lemma applyMove_elsewhere:
  assumes wf: "wf_board (board g)"
    and ok: "isValidMove (board g) from to (turn g) (enPassantTarget g) (enPassantPawn g)
               = Some (Inr Ok)"
    and mover: "cellAt (board g) (fst from) (snd from) = Inr (Cell (Some (c, ty)))"
    and dest: "cellAt (board g) (fst to) (snd to) = Inr dest"
    and sq: "inBounds i j" "i \<noteq> fst to \<or> j \<noteq> snd to"
  shows "cellAt (board (applyMove g from to (c, ty) dest)) i j
           = (if (i = fst from \<and> j = snd from)
                 \<or> (enPassantFlag g from to \<and> enPassantPawn g = Some (i, j))
              then Inr (Cell None) else cellAt (board g) i j)"
proof -
  from isValidMove_OkD [OF ok]
  have inb: "inBounds (fst from) (snd from)" "inBounds (fst to) (snd to)" by auto
  have flag: "isEnPassantCapture (Cell (Some (c, ty))) dest from to
                (enPassantTarget g) (enPassantPawn g) = enPassantFlag g from to"
    by (simp add: enPassantFlag_def mover dest)
  define b2 where "b2 = setCell (setCell (board g) (fst to) (snd to) (Some (c, ty)))
                           (fst from) (snd from) None"
  define b3 where "b3 = (if enPassantFlag g from to
                         then (case enPassantPawn g of
                                 Some v \<Rightarrow> setCell b2 (fst v) (snd v) None
                               | None \<Rightarrow> b2)
                         else b2)"
  have wf2: "wf_board b2" using wf by (simp add: b2_def)
  have c2: "cellAt b2 i j = (if i = fst from \<and> j = snd from then Inr (Cell None)
                             else cellAt (board g) i j)"
    using wf inb sq by (auto simp: b2_def cellAt_setCell)
  have wf3: "wf_board b3" using wf2 by (simp add: b3_def split: option.splits)
  have c3: "cellAt b3 i j
              = (if (i = fst from \<and> j = snd from)
                    \<or> (enPassantFlag g from to \<and> enPassantPawn g = Some (i, j))
                 then Inr (Cell None) else cellAt (board g) i j)"
  proof (cases "enPassantFlag g from to")
    case False
    then show ?thesis using c2 by (simp add: b3_def)
  next
    case True
    with flag isEnPassantCapture_rule [OF mover dest] obtain v
      where v: "enPassantPawn g = Some v" "fst v = fst from" "snd v = snd to"
      by auto
    have "inBounds (fst v) (snd v)" using inb v by (simp add: inBounds_def)
    then show ?thesis
      using True v(1) wf2 sq(1) c2 by (auto simp: b3_def cellAt_setCell prod_eq_iff)
  qed
  have "board (applyMove g from to (c, ty) dest)
          = (if ty = CHR ''P'' \<and> fst to = farthestRank c
             then setCell b3 (fst to) (snd to) (Some (c, CHR ''Q'')) else b3)"
    by (simp only: board_applyMove Let_def b2_def b3_def flag fst_conv snd_conv)
  then have "board (applyMove g from to (c, ty) dest) = b3
      \<or> board (applyMove g from to (c, ty) dest)
          = setCell b3 (fst to) (snd to) (Some (c, CHR ''Q''))"
    by (cases "ty = CHR ''P'' \<and> fst to = farthestRank c") simp_all
  moreover have "cellAt (setCell b3 (fst to) (snd to) (Some (c, CHR ''Q''))) i j = cellAt b3 i j"
    using wf3 inb(2) sq by (auto simp: cellAt_setCell)
  ultimately show ?thesis using c3 by auto
qed

lemma isValidPawnMove_rows:
  assumes "isValidPawnMove b from to color ept epp = Inr True"
  shows "fst to - fst from = forwardDir color
       \<or> (fst from = startRank color \<and> fst to - fst from = 2 * forwardDir color)"
  using assms
  by (auto simp: isValidPawnMove_alt split: if_splits option.splits sum.splits)


lemma noPawnBehindD:
  assumes "noPawnBehind b" "inBounds i j"
  shows "\<not> pawnBehind b i j"
proof -
  from assms(2) have "nat i < 10" "nat j < 10" "int (nat i) = i" "int (nat j) = j"
    by (auto simp: inBounds_def SIZE_def)
  with assms(1) show ?thesis
    unfolding noPawnBehind_def list_all_iff
    by (metis atLeastLessThan_iff set_upt zero_le)
qed

lemma noPawnBehindI:
  assumes "\<And>i j. inBounds i j \<Longrightarrow> \<not> pawnBehind b i j"
  shows "noPawnBehind b"
  unfolding noPawnBehind_def list_all_iff
  by (auto intro!: assms simp: inBounds_def SIZE_def)

lemma same_side:
  "forwardDir c' = forwardDir c \<longleftrightarrow> startRank c' = startRank c"
  by (auto simp: forwardDir_def startRank_def SIZE_def)

text \<open>Where a pawn stands after an accepted move, and where it came from.\<close>

lemma pawn_after_move:
  assumes wf: "wf_board (board g)"
    and ok: "isValidMove (board g) from to (turn g) (enPassantTarget g) (enPassantPawn g)
               = Some (Inr Ok)"
    and mover: "cellAt (board g) (fst from) (snd from) = Inr (Cell (Some (c, ty)))"
    and dest: "cellAt (board g) (fst to) (snd to) = Inr dest"
    and sq: "inBounds i j"
    and pawn: "cellAt (board (applyMove g from to (c, ty) dest)) i j
                 = Inr (Cell (Some (c', CHR ''P'')))"
  shows "cellAt (board g) i j = Inr (Cell (Some (c', CHR ''P'')))
       \<or> (i = fst to \<and> c' = c \<and> ty = CHR ''P''
           \<and> (i - fst from = forwardDir c
               \<or> (fst from = startRank c \<and> i - fst from = 2 * forwardDir c)))"
proof (cases "i = fst to \<and> j = snd to")
  case True
  with applyMove_destination [OF wf ok mover dest] pawn
  have "c' = c" "ty = CHR ''P''" by (auto split: if_splits)
  moreover from isValidMove_OkD [OF ok] mover \<open>ty = CHR ''P''\<close>
  have "isValidPawnMove (board g) from to c (enPassantTarget g) (enPassantPawn g) = Inr True"
    by auto
  from isValidPawnMove_rows [OF this]
  have "fst to - fst from = forwardDir c
      \<or> (fst from = startRank c \<and> fst to - fst from = 2 * forwardDir c)" .
  ultimately show ?thesis using True by simp
next
  case False
  then have "i \<noteq> fst to \<or> j \<noteq> snd to" by simp
  from applyMove_elsewhere [OF wf ok mover dest sq this] pawn
  show ?thesis by (auto split: if_splits)
qed

lemma accepted_keeps_noPawnBehind:
  assumes wf: "wf_board (board g)" and inv: "noPawnBehind (board g)"
    and acc: "post_move g (Some from) (Some to) = Some (Inr (Accepted, g'))"
  shows "noPawnBehind (board g')"
proof (rule noPawnBehindI)
  fix i j assume sq: "inBounds i j"
  from post_move_AcceptedD [OF acc] obtain c ty dest
    where mover: "cellAt (board g) (fst from) (snd from) = Inr (Cell (Some (c, ty)))"
      and dest: "cellAt (board g) (fst to) (snd to) = Inr dest"
      and ok: "isValidMove (board g) from to (turn g) (enPassantTarget g) (enPassantPawn g)
                 = Some (Inr Ok)"
      and g': "g' = applyMove g from to (c, ty) dest"
    by (metis old.prod.exhaust option.inject)
  from isValidMove_OkD [OF ok] have inb: "inBounds (fst from) (snd from)" by simp
  show "\<not> pawnBehind (board g') i j"
  proof
    assume "pawnBehind (board g') i j"
    then obtain c' where here: "cellAt (board g') i j = Inr (Cell (Some (c', CHR ''P'')))"
      and behind: "i = startRank c' - forwardDir c'"
      by (auto simp: pawnBehind_def split: sum.splits rd.splits option.splits)
    from pawn_after_move [OF wf ok mover dest sq here [unfolded g']]
    show False
    proof
      assume "cellAt (board g) i j = Inr (Cell (Some (c', CHR ''P'')))"
      with behind have "pawnBehind (board g) i j" by (simp add: pawnBehind_def)
      with noPawnBehindD [OF inv sq] show False by simp
    next
      assume "i = fst to \<and> c' = c \<and> ty = CHR ''P''
           \<and> (i - fst from = forwardDir c
               \<or> (fst from = startRank c \<and> i - fst from = 2 * forwardDir c))"
      with behind inb show False
        by (auto simp: inBounds_def SIZE_def forwardDir_def startRank_def split: if_splits)
    qed
  qed
qed

lemma accepted_keeps_start_square_free:
  assumes wf: "wf_board (board g)" and inv: "noPawnBehind (board g)"
    and acc: "post_move g (Some from) (Some to) = Some (Inr (Accepted, g'))"
    and start: "inBounds (startRank c0) j"
    and free: "\<not> pawnOfSideAt (board g) (startRank c0, j) c0"
  shows "\<not> pawnOfSideAt (board g') (startRank c0, j) c0"
proof
  assume "pawnOfSideAt (board g') (startRank c0, j) c0"
  then obtain c' where here: "cellAt (board g') (startRank c0) j = Inr (Cell (Some (c', CHR ''P'')))"
    and side: "forwardDir c' = forwardDir c0"
    by (auto simp: pawnOfSideAt_def split: sum.splits rd.splits option.splits)
  from side have rank: "startRank c' = startRank c0" by (simp add: same_side)
  from post_move_AcceptedD [OF acc] obtain c ty dest
    where mover: "cellAt (board g) (fst from) (snd from) = Inr (Cell (Some (c, ty)))"
      and dest: "cellAt (board g) (fst to) (snd to) = Inr dest"
      and ok: "isValidMove (board g) from to (turn g) (enPassantTarget g) (enPassantPawn g)
                 = Some (Inr Ok)"
      and g': "g' = applyMove g from to (c, ty) dest"
    by (metis old.prod.exhaust option.inject)
  from isValidMove_OkD [OF ok] have inb: "inBounds (fst from) (snd from)" by simp
  from pawn_after_move [OF wf ok mover dest start here [unfolded g']]
  show False
  proof
    assume "cellAt (board g) (startRank c0) j = Inr (Cell (Some (c', CHR ''P'')))"
    with side free show False by (simp add: pawnOfSideAt_def)
  next
    assume a: "startRank c0 = fst to \<and> c' = c \<and> ty = CHR ''P''
           \<and> (startRank c0 - fst from = forwardDir c
               \<or> (fst from = startRank c \<and> startRank c0 - fst from = 2 * forwardDir c))"
    then have "fst from = startRank c - forwardDir c"
      using rank forwardDir_nonzero [of c] by auto
    with a mover have "pawnBehind (board g) (fst from) (snd from)"
      by (simp add: pawnBehind_def)
    with noPawnBehindD [OF inv inb] show False by simp
  qed
qed

lemma window_names_start_square:
  assumes acc: "post_move g (Some from) (Some to) = Some (Inr (Accepted, g'))"
    and win: "enPassantTarget g' = Some (startRank c0 + forwardDir c0, j)"
  shows "pawnOfSideAt (board g) (startRank c0, j) c0"
proof -
  from post_move_AcceptedD [OF acc] obtain c ty dest
    where mover: "cellAt (board g) (fst from) (snd from) = Inr (Cell (Some (c, ty)))"
      and ok: "isValidMove (board g) from to (turn g) (enPassantTarget g) (enPassantPawn g)
                 = Some (Inr Ok)"
      and g': "g' = applyMove g from to (c, ty) dest"
    by (metis old.prod.exhaust option.inject)
  from window_applyMove [of g "from" to c ty dest] win
  have d: "ty = CHR ''P''" "fst from = startRank c" "snd from = j"
    "startRank c + forwardDir c = startRank c0 + forwardDir c0"
    by (auto simp: g' split: if_splits)
  from d(4) have "forwardDir c = forwardDir c0" "startRank c = startRank c0"
    by (auto simp: forwardDir_def startRank_def SIZE_def split: if_splits)
  with d mover show ?thesis
    by (simp add: pawnOfSideAt_def)
qed

lemma later_window_elsewhere:
  assumes "wf_board (board g)" "noPawnBehind (board g)"
    and "inBounds (startRank c0) j" "\<not> pawnOfSideAt (board g) (startRank c0, j) c0"
    and "ms \<noteq> []" "acceptedRun g ms = Some g2"
  shows "enPassantTarget g2 \<noteq> Some (startRank c0 + forwardDir c0, j)"
  using assms
proof (induction ms arbitrary: g)
  case Nil
  then show ?case by simp
next
  case (Cons m ms)
  from Cons.prems(6) obtain g'
    where acc: "post_move g (Some (fst m)) (Some (snd m)) = Some (Inr (Accepted, g'))"
      and rest: "acceptedRun g' ms = Some g2"
    by (auto split: option.splits sum.splits prod.splits response.splits)
  show ?case
  proof (cases "ms = []")
    case True
    with rest have "g2 = g'" by simp
    with window_names_start_square [OF acc] Cons.prems(4) show ?thesis by blast
  next
    case False
    have "wf_board (board g')"
      using post_move_keeps_shape [OF Cons.prems(1) acc] .
    moreover have "noPawnBehind (board g')"
      using accepted_keeps_noPawnBehind [OF Cons.prems(1,2) acc] .
    moreover have "\<not> pawnOfSideAt (board g') (startRank c0, j) c0"
      using accepted_keeps_start_square_free [OF Cons.prems(1,2) acc Cons.prems(3,4)] .
    ultimately show ?thesis
      using Cons.IH [OF _ _ Cons.prems(3) _ False rest] by blast
  qed
qed

text \<open>
  C2. After every accepted move the en-passant window is the one the specification
  prescribes for that move alone: target the skipped-over square and victim the destination
  when the move was a pawn's two-step advance from its starting rank along a file, and
  empty otherwise; nothing of the window before the move survives. Hence, in the state
  after an accepted move, an attempted en-passant capture onto a square is refused as an
  illegal pawn move unless that very move was the double step over that square. And once
  one more move has been accepted after a double step, from a position with no pawn behind
  its starting rank, every attempt at the target of that double step is refused as an
  illegal pawn move, however many accepted moves later it comes.
\<close>

theorem en_passant_window_one_move:
  assumes acc: "post_move g (Some from) (Some to) = Some (Inr (Accepted, g'))"
  shows "(enPassantTarget g', enPassantPawn g') = windowAfter (board g) from to
       \<and> (\<forall>from2 to2.
             enPassantAttempt g' from2 to2
             \<and> \<not> (isDoubleStep (board g) from to \<and> to2 = skippedSquare from to)
            \<longrightarrow> isValidMove (board g') from2 to2 (turn g')
                    (enPassantTarget g') (enPassantPawn g') = Some (Inr (Illegal IllegalPawn))
                \<and> (\<not> isOver g'
                     \<longrightarrow> post_move g' (Some from2) (Some to2)
                           = Some (Inr (Rejected IllegalPawn, g'))))
       \<and> (\<forall>ms g2 from2.
             wf_board (board g) \<and> noPawnBehind (board g) \<and> isDoubleStep (board g) from to
             \<and> ms \<noteq> [] \<and> acceptedRun g' ms = Some g2
             \<and> enPassantAttempt g2 from2 (skippedSquare from to)
            \<longrightarrow> isValidMove (board g2) from2 (skippedSquare from to) (turn g2)
                    (enPassantTarget g2) (enPassantPawn g2) = Some (Inr (Illegal IllegalPawn)))"
proof -
  from post_move_AcceptedD [OF acc] obtain c ty dest
    where mover: "cellAt (board g) (fst from) (snd from) = Inr (Cell (Some (c, ty)))"
      and dest: "cellAt (board g) (fst to) (snd to) = Inr dest"
      and ok: "isValidMove (board g) from to (turn g) (enPassantTarget g) (enPassantPawn g)
                 = Some (Inr Ok)"
      and g': "g' = applyMove g from to (c, ty) dest"
    by (metis old.prod.exhaust option.inject)
  have win: "(enPassantTarget g', enPassantPawn g') = windowAfter (board g) from to"
    unfolding g' window_applyMove by (rule accepted_window [OF ok mover])
  have rej: "isValidMove (board g') from2 to2 (turn g') (enPassantTarget g') (enPassantPawn g')
               = Some (Inr (Illegal IllegalPawn))
             \<and> (\<not> isOver g'
                  \<longrightarrow> post_move g' (Some from2) (Some to2)
                        = Some (Inr (Rejected IllegalPawn, g')))"
    if att: "enPassantAttempt g' from2 to2"
      and no: "\<not> (isDoubleStep (board g) from to \<and> to2 = skippedSquare from to)"
    for from2 to2
  proof -
    from win no have "enPassantTarget g' \<noteq> Some to2"
      by (auto simp: windowAfter_def split: if_splits)
    from attempt_without_window [OF att this]
    have v: "isValidMove (board g') from2 to2 (turn g') (enPassantTarget g') (enPassantPawn g')
               = Some (Inr (Illegal IllegalPawn))" .
    from att have "cellAt (board g') (fst from2) (snd from2) = Inr (Cell (Some (turn g', CHR ''P'')))"
      "cellAt (board g') (fst to2) (snd to2) = Inr (Cell None)"
      by (auto simp: enPassantAttempt_def emptyAt_def)
    with v show ?thesis by (simp add: post_move_def)
  qed
  have late: "isValidMove (board g2) from2 (skippedSquare from to) (turn g2)
                (enPassantTarget g2) (enPassantPawn g2) = Some (Inr (Illegal IllegalPawn))"
    if wf: "wf_board (board g)" and inv: "noPawnBehind (board g)"
      and dbl: "isDoubleStep (board g) from to"
      and run: "ms \<noteq> []" "acceptedRun g' ms = Some g2"
      and att: "enPassantAttempt g2 from2 (skippedSquare from to)"
    for ms g2 from2
  proof -
    from dbl mover have d: "ty = CHR ''P''" "fst from = startRank c"
      "fst to - fst from = 2 * forwardDir c" "snd to = snd from"
      by (auto simp: isDoubleStep_def)
    then have skip: "skippedSquare from to = (startRank c + forwardDir c, snd from)"
      by (auto simp: skippedSquare_def)
    from isValidMove_OkD [OF ok]
    have inb: "inBounds (fst from) (snd from)" by simp
    have away: "fst from \<noteq> fst to \<or> snd from \<noteq> snd to"
      using d(3) forwardDir_nonzero [of c] by auto
    from applyMove_elsewhere [OF wf ok mover dest inb away]
    have "cellAt (board g') (fst from) (snd from) = Inr (Cell None)"
      by (simp add: g')
    then have free: "\<not> pawnOfSideAt (board g') (startRank c, snd from) c"
      by (simp add: pawnOfSideAt_def d(2) [symmetric])
    have "enPassantTarget g2 \<noteq> Some (startRank c + forwardDir c, snd from)"
      by (rule later_window_elsewhere
            [OF post_move_keeps_shape [OF wf acc] accepted_keeps_noPawnBehind [OF wf inv acc]
                inb [unfolded d(2)] free run])
    with attempt_without_window [OF att] skip show ?thesis by simp
  qed
  from win rej late show ?thesis by blast
qed

theorem en_passant_window_one_move_witness:
  "post_move epStart (Some (1, 4)) (Some (3, 4)) = Some (Inr (Accepted, epOpen))
   \<and> wf_board (board epStart) \<and> noPawnBehind (board epStart)
   \<and> isDoubleStep (board epStart) (1, 4) (3, 4) \<and> skippedSquare (1, 4) (3, 4) = (2, 4)
   \<and> enPassantTarget epOpen = Some (2, 4) \<and> enPassantPawn epOpen = Some (3, 4)
   \<and> post_move epOpen (Some (3, 3)) (Some (2, 4)) = Some (Inr (Accepted, epTaken))
   \<and> acceptedRun epOpen [((9, 5), (9, 4)), ((1, 0), (2, 0))] = Some epLate2
   \<and> post_move epLate1 (Some (1, 0)) (Some (2, 0)) = Some (Inr (Accepted, epLate2))
   \<and> enPassantTarget epLate2 = None \<and> enPassantPawn epLate2 = None
   \<and> enPassantAttempt epLate2 (3, 3) (2, 4)
   \<and> isValidMove (board epLate2) (3, 3) (2, 4) (turn epLate2)
        (enPassantTarget epLate2) (enPassantPawn epLate2) = Some (Inr (Illegal IllegalPawn))
   \<and> post_move epLate2 (Some (3, 3)) (Some (2, 4)) = Some (Inr (Rejected IllegalPawn, epLate2))"
proof -
  have a1: "post_move epStart (Some (1, 4)) (Some (3, 4)) = Some (Inr (Accepted, epOpen))"
    by code_simp
  have a2: "post_move epOpen (Some (3, 3)) (Some (2, 4)) = Some (Inr (Accepted, epTaken))"
    by code_simp
  have a3: "post_move epLate1 (Some (1, 0)) (Some (2, 0)) = Some (Inr (Accepted, epLate2))"
    by code_simp
  have wf: "wf_board (board epStart)" by code_simp
  have inv: "noPawnBehind (board epStart)" by code_simp
  have dbl: "isDoubleStep (board epStart) (1, 4) (3, 4)" by code_simp
  have skip: "skippedSquare (1, 4) (3, 4) = (2, 4)" by code_simp
  have run: "acceptedRun epOpen [((9, 5), (9, 4)), ((1, 0), (2, 0))] = Some epLate2"
    by code_simp
  have w1: "windowAfter (board epStart) (1, 4) (3, 4) = (Some (2, 4), Some (3, 4))"
    by code_simp
  have w3: "windowAfter (board epLate1) (1, 0) (2, 0) = (None, None)"
    by code_simp
  have d3: "\<not> (isDoubleStep (board epLate1) (1, 0) (2, 0) \<and> (2, 4) = skippedSquare (1, 0) (2, 0))"
    by code_simp
  have att: "enPassantAttempt epLate2 (3, 3) (2, 4)" by code_simp
  have live: "\<not> isOver epLate2" by code_simp
  note first = en_passant_window_one_move [OF a1]
  from first w1
  have "enPassantTarget epOpen = Some (2, 4) \<and> enPassantPawn epOpen = Some (3, 4)" by simp
  moreover from first wf inv dbl skip run att
  have "isValidMove (board epLate2) (3, 3) (2, 4) (turn epLate2)
          (enPassantTarget epLate2) (enPassantPawn epLate2) = Some (Inr (Illegal IllegalPawn))"
    by (metis list.distinct(1))
  moreover from en_passant_window_one_move [OF a3] w3 att d3 live
  have "enPassantTarget epLate2 = None \<and> enPassantPawn epLate2 = None
        \<and> post_move epLate2 (Some (3, 3)) (Some (2, 4)) = Some (Inr (Rejected IllegalPawn, epLate2))"
    by simp
  ultimately show ?thesis using a1 a2 a3 wf inv dbl skip run att by simp
qed

subsection \<open>Move notation\<close>

lemma file_letters:
  "list_all (\<lambda>n. ''abcdefghij'' ! n = char_of (of_char CHR ''a'' + n)) [0..<10]"
  by code_simp

lemma toAlgebraic_squareName:
  assumes "inBounds (fst sq) (snd sq)"
  shows "toAlgebraic (fst sq) (snd sq) = squareName sq"
proof -
  from assms have "nat (snd sq) < 10" "0 \<le> snd sq" "snd sq < 10"
    by (auto simp: inBounds_def SIZE_def)
  moreover from file_letters
  have "''abcdefghij'' ! n = char_of (of_char CHR ''a'' + n)" if "n < 10" for n
    using that unfolding list_all_iff by (metis atLeast0LessThan lessThan_iff set_upt)
  ultimately show ?thesis
    unfolding toAlgebraic_def squareName_def Let_def by simp
qed

lemma pieceToNotation_pieceLetter:
  "ty \<noteq> CHR ''P'' \<Longrightarrow> pieceToNotation (Some ty) = pieceLetter ty"
  by (auto simp: pieceToNotation_def pieceLetter_def)

lemma moveNotation_describe:
  assumes "inBounds (fst from) (snd from)" "inBounds (fst to) (snd to)"
  shows "moveNotation (Some ty) isCapture from to over didPromote isEP
           = describe_endFirst from to ty isCapture didPromote isEP over"
  using assms
  by (simp add: moveNotation_def describe_endFirst_def describeBase_def
      toAlgebraic_squareName pieceToNotation_pieceLetter)

text \<open>
  C7, as amended. For every accepted move the notation appended to the history is, in this
  order: the piece, capture and destination part (a pawn: the destination square alone, or
  origin file, \<open>x\<close> and destination when the destination was occupied; another piece:
  its letter, \<open>x\<close> when the destination was occupied, the destination square), then
  \<open>#\<close> if the move captured a king, then \<open>=Q\<close> if the pawn was promoted, then the
  en-passant marker if the move was an en-passant capture.
\<close>

theorem notation_order:
  assumes acc: "post_move g (Some from) (Some to) = Some (Inr (Accepted, g'))"
  shows "moves g' = moves g @ [notationFor describe_endFirst g from to]"
proof -
  from post_move_AcceptedD [OF acc] obtain c ty dest
    where mover: "cellAt (board g) (fst from) (snd from) = Inr (Cell (Some (c, ty)))"
      and dest: "cellAt (board g) (fst to) (snd to) = Inr dest"
      and ok: "isValidMove (board g) from to (turn g) (enPassantTarget g) (enPassantPawn g)
                 = Some (Inr Ok)"
      and live: "\<not> isOver g"
      and g': "g' = applyMove g from to (c, ty) dest"
    by (metis old.prod.exhaust option.inject)
  from isValidMove_OkD [OF ok]
  have inb: "inBounds (fst from) (snd from)" "inBounds (fst to) (snd to)" by auto
  have cap: "(dest \<noteq> Cell None) = (\<not> emptyAt (board g) to)"
    using dest by (simp add: emptyAt_def)
  have king: "(typeOf dest = Some CHR ''K'') = kingAt (board g) to"
    using dest by (cases dest) (auto simp: kingAt_def split: option.splits)
  have flag: "isEnPassantCapture (Cell (Some (c, ty))) dest from to
                (enPassantTarget g) (enPassantPawn g) = enPassantFlag g from to"
    by (simp add: enPassantFlag_def mover dest)
  have "moves g' = moves g @ [moveNotation (Some ty) (\<not> emptyAt (board g) to) from to
                     (kingAt (board g) to) (ty = CHR ''P'' \<and> fst to = farthestRank c)
                     (enPassantFlag g from to)]"
    using live by (simp add: g' applyMove_def Let_def cap king flag farthestRank_def)
  then show ?thesis
    by (simp add: moveNotation_describe [OF inb] notationFor_def mover)
qed

theorem notation_order_witness:
  "post_move promotionGame (Some (1, 3)) (Some (0, 4)) = Some (Inr (Accepted, promotionCaptured))
   \<and> notationFor describe_endFirst promotionGame (1, 3) (0, 4) = ''dxe10#=Q''
   \<and> moves promotionCaptured = [''dxe10#=Q'']"
proof -
  have acc: "post_move promotionGame (Some (1, 3)) (Some (0, 4))
               = Some (Inr (Accepted, promotionCaptured))"
    by code_simp
  have n: "notationFor describe_endFirst promotionGame (1, 3) (0, 4) = ''dxe10#=Q''"
    by code_simp
  have m: "moves promotionGame = []" by (simp add: promotionGame_def)
  from notation_order [OF acc] acc n m show ?thesis by simp
qed

theorem notation_order_counterexample:
  "post_move promotionGame (Some (1, 3)) (Some (0, 4)) = Some (Inr (Accepted, promotionCaptured))
   \<and> moves promotionCaptured = [''dxe10#=Q'']
   \<and> moves promotionGame @ [notationFor describe_spec promotionGame (1, 3) (0, 4)]
       = [''dxe10=Q#'']
   \<and> moves promotionCaptured
       \<noteq> moves promotionGame @ [notationFor describe_spec promotionGame (1, 3) (0, 4)]"
  by code_simp

subsection \<open>The path check\<close>

lemma pathClear_loop_walk:
  assumes wf: "wf_board b"
    and step: "dr \<noteq> 0 \<or> dc \<noteq> 0"
    and inb: "\<And>m. k \<le> m \<Longrightarrow> m < n \<Longrightarrow> inBounds (fr + int m * dr) (fc + int m * dc)"
    and le: "k \<le> n"
  shows "pathClear_loop b dr dc (fr + int n * dr, fc + int n * dc)
           (fr + int k * dr) (fc + int k * dc)
         = Some (Inr (list_all (emptyAt b)
                        (map (\<lambda>m. (fr + int m * dr, fc + int m * dc)) [k..<n])))"
  using inb le
proof (induction "n - k" arbitrary: k)
  case 0
  then have "k = n" by simp
  then show ?case
    by (subst pathClear_loop.simps) simp
next
  case (Suc d)
  then have lt: "k < n" by simp
  have away: "fr + int k * dr \<noteq> fr + int n * dr \<or> fc + int k * dc \<noteq> fc + int n * dc"
    using lt step by auto
  from Suc.prems(1) [of k] lt
  have here: "inBounds (fr + int k * dr) (fc + int k * dc)" by simp
  from cellAt_wf [OF wf here] obtain x
    where x: "cellAt b (fr + int k * dr) (fc + int k * dc) = Inr (Cell x)" by blast
  have next_sq: "fr + int k * dr + dr = fr + int (Suc k) * dr"
    "fc + int k * dc + dc = fc + int (Suc k) * dc"
    by (simp_all add: algebra_simps)
  have IH: "pathClear_loop b dr dc (fr + int n * dr, fc + int n * dc)
              (fr + int (Suc k) * dr) (fc + int (Suc k) * dc)
            = Some (Inr (list_all (emptyAt b)
                           (map (\<lambda>m. (fr + int m * dr, fc + int m * dc)) [Suc k..<n])))"
  proof (rule Suc.hyps(1))
    show "d = n - Suc k" using Suc.hyps(2) by simp
    show "inBounds (fr + int m * dr) (fc + int m * dc)" if "Suc k \<le> m" "m < n" for m
      using that Suc.prems(1) [of m] by simp
    show "Suc k \<le> n" using lt by simp
  qed
  have unroll: "[k..<n] = k # [Suc k..<n]"
    using lt by (simp add: upt_conv_Cons)
  show ?case
  proof (cases x)
    case None
    show ?thesis
      apply (subst pathClear_loop.simps)
      using away x None IH
      by (simp only: next_sq unroll) (simp add: emptyAt_def)
  next
    case (Some p)
    show ?thesis
      apply (subst pathClear_loop.simps)
      using away x Some
      by (simp only: unroll) (simp add: emptyAt_def)
  qed
qed


lemma straight_geometry:
  assumes st: "straight from to"
  defines "n \<equiv> nat (max \<bar>fst to - fst from\<bar> \<bar>snd to - snd from\<bar>)"
  shows "0 < n"
    and "fst from + int n * sgn (fst to - fst from) = fst to"
    and "snd from + int n * sgn (snd to - snd from) = snd to"
    and "sgn (fst to - fst from) \<noteq> 0 \<or> sgn (snd to - snd from) \<noteq> 0"
proof -
  from st have ne: "fst to - fst from \<noteq> 0 \<or> snd to - snd from \<noteq> 0"
    by (auto simp: straight_def prod_eq_iff)
  then show "0 < n" by (auto simp: n_def)
  from ne show "sgn (fst to - fst from) \<noteq> 0 \<or> sgn (snd to - snd from) \<noteq> 0"
    by (simp add: sgn_0_0)
  have rows: "int n = \<bar>fst to - fst from\<bar>" if "fst to - fst from \<noteq> 0"
    using st that by (auto simp: straight_def n_def)
  have cols: "int n = \<bar>snd to - snd from\<bar>" if "snd to - snd from \<noteq> 0"
    using st that by (auto simp: straight_def n_def)
  show "fst from + int n * sgn (fst to - fst from) = fst to"
  proof (cases "fst to - fst from = 0")
    case True then show ?thesis by simp
  next
    case False
    from rows [OF False] show ?thesis by (simp add: sgn_if)
  qed
  show "snd from + int n * sgn (snd to - snd from) = snd to"
  proof (cases "snd to - snd from = 0")
    case True then show ?thesis by simp
  next
    case False
    from cols [OF False] show ?thesis by (simp add: sgn_if)
  qed
qed

lemma walk_stays_between:
  assumes "0 \<le> a" "a < SIZE" "0 \<le> a + int n * sgn d" "a + int n * sgn d < SIZE" "m \<le> n"
  shows "0 \<le> a + int m * sgn d \<and> a + int m * sgn d < SIZE"
  using assms by (cases "d = 0"; cases "d < 0") (auto simp: sgn_if)

lemma pathClear_straight:
  assumes wf: "wf_board b"
    and inb: "inBounds (fst from) (snd from)" "inBounds (fst to) (snd to)"
    and st: "straight from to"
  shows "list_all (\<lambda>sq. inBounds (fst sq) (snd sq)) (between from to)
       \<and> pathClear b from to = Some (Inr (list_all (emptyAt b) (between from to)))"
proof -
  define dr where "dr = sgn (fst to - fst from)"
  define dc where "dc = sgn (snd to - snd from)"
  define n where "n = nat (max \<bar>fst to - fst from\<bar> \<bar>snd to - snd from\<bar>)"
  note geo = straight_geometry [OF st, folded n_def dr_def dc_def]
  have inside: "inBounds (fst from + int m * dr) (snd from + int m * dc)" if "m \<le> n" for m
  proof -
    have "0 \<le> fst from + int m * dr \<and> fst from + int m * dr < SIZE"
      unfolding dr_def
      by (rule walk_stays_between [OF _ _ _ _ that])
        (use inb geo(2) in \<open>auto simp: inBounds_def dr_def\<close>)
    moreover have "0 \<le> snd from + int m * dc \<and> snd from + int m * dc < SIZE"
      unfolding dc_def
      by (rule walk_stays_between [OF _ _ _ _ that])
        (use inb geo(3) in \<open>auto simp: inBounds_def dc_def\<close>)
    ultimately show ?thesis by (simp add: inBounds_def)
  qed
  have btw: "between from to = map (\<lambda>k. (fst from + int k * dr, snd from + int k * dc)) [1..<n]"
    by (simp add: between_def Let_def dr_def dc_def n_def)
  have "pathClear b from to
          = pathClear_loop b dr dc (fst from + int n * dr, snd from + int n * dc)
              (fst from + int 1 * dr) (snd from + int 1 * dc)"
    by (simp add: pathClear_def Let_def dr_def [symmetric] dc_def [symmetric] geo(2,3))
  also have "\<dots> = Some (Inr (list_all (emptyAt b)
                (map (\<lambda>m. (fst from + int m * dr, snd from + int m * dc)) [1..<n])))"
  proof (rule pathClear_loop_walk [OF wf geo(4)])
    show "inBounds (fst from + int m * dr) (snd from + int m * dc)" if "1 \<le> m" "m < n" for m
      using inside [of m] that by simp
    show "1 \<le> n" using geo(1) by simp
  qed
  finally have "pathClear b from to = Some (Inr (list_all (emptyAt b) (between from to)))"
    by (simp only: btw)
  moreover have "list_all (\<lambda>sq. inBounds (fst sq) (snd sq)) (between from to)"
    unfolding btw list_all_iff using inside by auto
  ultimately show ?thesis by simp
qed


lemma sliding_agree:
  assumes "shape \<Longrightarrow> pc b from to = pc' b from to"
  shows "sliding pc shape b from to why = sliding pc' shape b from to why"
  using assms by (simp add: sliding_def)

lemma isValidMove_with_agree:
  assumes agree: "inBounds (fst from) (snd from) \<and> inBounds (fst to) (snd to) \<and> straight from to
                    \<Longrightarrow> pc b from to = pc' b from to"
  shows "isValidMove_with pc b from to tc ept epp = isValidMove_with pc' b from to tc ept epp"
proof (cases "inBounds (fst from) (snd from) \<and> inBounds (fst to) (snd to)
              \<and> (fst from \<noteq> fst to \<or> snd from \<noteq> snd to)")
  case False
  then show ?thesis by (auto simp: isValidMove_with_def)
next
  case True
  then have ne: "from \<noteq> to" by (auto simp: prod_eq_iff)
  have call: "pc b from to = pc' b from to"
    if "\<bar>fst to - fst from\<bar> = \<bar>snd to - snd from\<bar>
        \<or> fst to - fst from = 0 \<or> snd to - snd from = 0"
    using that True ne by (intro agree) (auto simp: straight_def)
  have bishop: "sliding pc (\<bar>fst to - fst from\<bar> = \<bar>snd to - snd from\<bar>) b from to why
              = sliding pc' (\<bar>fst to - fst from\<bar> = \<bar>snd to - snd from\<bar>) b from to why" for why
    by (rule sliding_agree) (simp add: call)
  have rook: "sliding pc (fst to - fst from = 0 \<or> snd to - snd from = 0) b from to why
            = sliding pc' (fst to - fst from = 0 \<or> snd to - snd from = 0) b from to why" for why
    by (rule sliding_agree) (simp add: call)
  have queen: "sliding pc (\<bar>fst to - fst from\<bar> = \<bar>snd to - snd from\<bar>
                            \<or> (fst to - fst from = 0 \<or> snd to - snd from = 0)) b from to why
             = sliding pc' (\<bar>fst to - fst from\<bar> = \<bar>snd to - snd from\<bar>
                            \<or> (fst to - fst from = 0 \<or> snd to - snd from = 0)) b from to why"
    for why
    by (rule sliding_agree) (simp add: call)
  show ?thesis
    unfolding isValidMove_with_def Let_def bishop rook queen ..
qed

text \<open>
  C9. The result of \<^verbatim>\<open>isValidMove\<close> depends on \<^verbatim>\<open>pathClear\<close> only at arguments that are
  two distinct squares inside the board on a common row, column or exact diagonal: whatever
  is substituted for \<^verbatim>\<open>pathClear\<close> elsewhere, the verdict is the same, so the bishop, rook
  and queen cases call it nowhere else. On a 10 by 10 board and such arguments, every square
  strictly between the two lies inside the board, and \<^verbatim>\<open>pathClear\<close> terminates, throws
  nothing, and returns true exactly when all of those squares are empty.
\<close>

theorem pathClear_calls_are_safe:
  assumes wf: "wf_board b"
  shows "(\<forall>pc. (\<forall>f t. inBounds (fst f) (snd f) \<and> inBounds (fst t) (snd t) \<and> straight f t
                   \<longrightarrow> pc b f t = pathClear b f t)
             \<longrightarrow> isValidMove_with pc b from to tc ept epp
                  = isValidMove b from to tc ept epp)
       \<and> (inBounds (fst from) (snd from) \<and> inBounds (fst to) (snd to) \<and> straight from to
            \<longrightarrow> list_all (\<lambda>sq. inBounds (fst sq) (snd sq)) (between from to)
                \<and> pathClear b from to = Some (Inr (list_all (emptyAt b) (between from to))))"
proof (intro conjI allI impI)
  fix pc assume "\<forall>f t. inBounds (fst f) (snd f) \<and> inBounds (fst t) (snd t) \<and> straight f t
                   \<longrightarrow> pc b f t = pathClear b f t"
  then show "isValidMove_with pc b from to tc ept epp = isValidMove b from to tc ept epp"
    unfolding isValidMove_def by (intro isValidMove_with_agree) blast
next
  assume a: "inBounds (fst from) (snd from) \<and> inBounds (fst to) (snd to) \<and> straight from to"
  with pathClear_straight [OF wf, of "from" to]
  show "list_all (\<lambda>sq. inBounds (fst sq) (snd sq)) (between from to)"
    and "pathClear b from to = Some (Inr (list_all (emptyAt b) (between from to)))"
    by simp_all
qed

theorem pathClear_calls_are_safe_witness:
  "wf_board initialBoard
   \<and> straight (9, 2) (6, 5) \<and> between (9, 2) (6, 5) = [(8, 3), (7, 4)]
   \<and> pathClear initialBoard (9, 2) (6, 5) = Some (Inr False)
   \<and> \<not> list_all (emptyAt initialBoard) (between (9, 2) (6, 5))
   \<and> isValidMove_with
        (\<lambda>b f t. if inBounds (fst f) (snd f) \<and> inBounds (fst t) (snd t) \<and> straight f t
                  then pathClear b f t else None)
        initialBoard (9, 2) (6, 5) CHR ''w'' None None
       = Some (Inr (Illegal IllegalBishop))
   \<and> isValidMove initialBoard (9, 2) (6, 5) CHR ''w'' None None
       = Some (Inr (Illegal IllegalBishop))"
proof -
  have wf: "wf_board initialBoard" by code_simp
  have st: "straight (9, 2) (6, 5)" by code_simp
  have bt: "between (9, 2) (6, 5) = [(8, 3), (7, 4)]" by code_simp
  have inb: "inBounds (fst (9 :: int, 2 :: int)) (snd (9 :: int, 2 :: int))"
    "inBounds (fst (6 :: int, 5 :: int)) (snd (6 :: int, 5 :: int))" by code_simp+
  have blocked: "\<not> list_all (emptyAt initialBoard) (between (9, 2) (6, 5))" by code_simp
  have v: "isValidMove initialBoard (9, 2) (6, 5) CHR ''w'' None None
             = Some (Inr (Illegal IllegalBishop))" by code_simp
  let ?pc = "\<lambda>b f t. if inBounds (fst f) (snd f) \<and> inBounds (fst t) (snd t) \<and> straight f t
                      then pathClear b f t else None"
  note inst = pathClear_calls_are_safe [OF wf, of "(9, 2)" "(6, 5)" "CHR ''w''" None None]
  from inst have "isValidMove_with ?pc initialBoard (9, 2) (6, 5) CHR ''w'' None None
                   = isValidMove initialBoard (9, 2) (6, 5) CHR ''w'' None None"
    by simp
  moreover from inst st inb blocked
  have "pathClear initialBoard (9, 2) (6, 5) = Some (Inr False)" by simp
  ultimately show ?thesis using wf st bt blocked v by simp
qed

subsection \<open>Squares outside the board\<close>

text \<open>
  On a 10 by 10 board the validator always returns a verdict: it neither throws nor loops.
  The handler throws exactly when the game is not over and a row of the submission is not
  a row of the board; otherwise it answers.
\<close>

lemma cellAt_row_outside:
  "wf_board b \<Longrightarrow> \<not> (0 \<le> i \<and> i < SIZE) \<Longrightarrow> cellAt b i j = Inl TypeError"
  by (auto simp: cellAt_def wf_board_def SIZE_def)

lemma cellAt_row_inside:
  "wf_board b \<Longrightarrow> 0 \<le> i \<and> i < SIZE \<Longrightarrow> \<exists>v. cellAt b i j = Inr v"
  by (auto simp: cellAt_def wf_board_def SIZE_def)

lemma sliding_returns:
  assumes "wf_board b" "inBounds (fst from) (snd from)" "inBounds (fst to) (snd to)"
    and "shape \<Longrightarrow> straight from to"
  shows "\<exists>v. sliding pathClear shape b from to why = Some (Inr v)"
proof (cases shape)
  case True
  with pathClear_straight [OF assms(1-3)] assms(4) show ?thesis
    by (simp add: sliding_def)
next
  case False
  then show ?thesis by (simp add: sliding_def)
qed

lemma isValidMove_returns:
  assumes wf: "wf_board b"
  shows "\<exists>v. isValidMove b from to tc ept epp = Some (Inr v)"
proof (cases "inBounds (fst from) (snd from) \<and> inBounds (fst to) (snd to)
              \<and> (fst from \<noteq> fst to \<or> snd from \<noteq> snd to)")
  case False
  then show ?thesis by (auto simp: isValidMove_def isValidMove_with_def)
next
  case True
  then have inb: "inBounds (fst from) (snd from)" "inBounds (fst to) (snd to)"
    and ne: "from \<noteq> to" by (auto simp: prod_eq_iff)
  obtain x y where x: "cellAt b (fst from) (snd from) = Inr (Cell x)"
    and y: "cellAt b (fst to) (snd to) = Inr (Cell y)"
    using wf inb by (simp add: cellAt_wf)
  have pawn: "\<exists>v. (case isValidPawnMove b from to c ept epp of
                       Inl e \<Rightarrow> Some (Inl e)
                     | Inr ok \<Rightarrow> Some (Inr (judge ok IllegalPawn))) = Some (Inr v)" for c
    by (simp add: isValidPawnMove_rule [OF wf inb])
  have bishop: "\<exists>v. sliding pathClear (\<bar>fst to - fst from\<bar> = \<bar>snd to - snd from\<bar>)
                       b from to why = Some (Inr v)" for why
    using ne by (intro sliding_returns [OF wf inb]) (simp add: straight_def)
  have rook: "\<exists>v. sliding pathClear (fst to - fst from = 0 \<or> snd to - snd from = 0)
                     b from to why = Some (Inr v)" for why
    using ne by (intro sliding_returns [OF wf inb]) (auto simp: straight_def)
  have queen: "\<exists>v. sliding pathClear (\<bar>fst to - fst from\<bar> = \<bar>snd to - snd from\<bar>
                                      \<or> (fst to - fst from = 0 \<or> snd to - snd from = 0))
                      b from to why = Some (Inr v)" for why
    using ne by (intro sliding_returns [OF wf inb]) (auto simp: straight_def)
  show ?thesis
  proof (cases x)
    case None
    then show ?thesis using True x by (simp add: isValidMove_def isValidMove_with_def)
  next
    case (Some p)
    obtain pc pt where p: "p = (pc, pt)" by (cases p)
    show ?thesis
      using True x y Some p pawn bishop rook queen
      by (simp add: isValidMove_def isValidMove_with_def Let_def)
  qed
qed

lemma post_move_row_outside:
  assumes wf: "wf_board (board g)" and live: "\<not> isOver g"
    and out: "\<not> (0 \<le> fst from \<and> fst from < SIZE) \<or> \<not> (0 \<le> fst to \<and> fst to < SIZE)"
  shows "post_move g (Some from) (Some to) = Some (Inl TypeError)"
proof (cases "0 \<le> fst from \<and> fst from < SIZE")
  case False
  from cellAt_row_outside [OF wf False] live show ?thesis
    by (simp add: post_move_def)
next
  case True
  with out have out': "\<not> (0 \<le> fst to \<and> fst to < SIZE)" by simp
  from cellAt_row_inside [OF wf True] obtain v
    where "cellAt (board g) (fst from) (snd from) = Inr v" ..
  with cellAt_row_outside [OF wf out'] live show ?thesis
    by (simp add: post_move_def)
qed

lemma post_move_answers:
  assumes wf: "wf_board (board g)"
    and rows: "isOver g \<or> (0 \<le> fst from \<and> fst from < SIZE \<and> 0 \<le> fst to \<and> fst to < SIZE)"
  shows "\<exists>r. post_move g (Some from) (Some to) = Some (Inr r)"
proof (cases "isOver g")
  case True
  then show ?thesis by (simp add: post_move_def)
next
  case False
  with rows have rows': "0 \<le> fst from \<and> fst from < SIZE" "0 \<le> fst to \<and> fst to < SIZE"
    by auto
  from cellAt_row_inside [OF wf rows'(1)] obtain p
    where p: "cellAt (board g) (fst from) (snd from) = Inr p" ..
  from cellAt_row_inside [OF wf rows'(2)] obtain d
    where d: "cellAt (board g) (fst to) (snd to) = Inr d" ..
  from isValidMove_returns [OF wf] obtain v
    where v: "isValidMove (board g) from to (turn g) (enPassantTarget g) (enPassantPawn g)
                = Some (Inr v)" ..
  show ?thesis
  proof (cases v)
    case (Illegal why)
    then show ?thesis using False p d v by (simp add: post_move_def)
  next
    case Ok
    with isValidMove_OkD [of "board g" "from" to "turn g" "enPassantTarget g" "enPassantPawn g"]
      v p
    obtain mp where "p = Cell (Some mp)" by auto
    then show ?thesis using False p d v Ok by (simp add: post_move_def)
  qed
qed

text \<open>
  C3. A submission with a row outside the board does not get the out-of-bounds rejection:
  the handler reads \<^verbatim>\<open>game.board[from.r][from.c]\<close> and \<^verbatim>\<open>game.board[to.r][to.c]\<close> before
  it calls \<^verbatim>\<open>isValidMove\<close>, and the read of a missing row throws a TypeError. The
  validator alone would have answered "Out of bounds.", and a column outside the board
  (with rows inside) is rejected that way.
\<close>

theorem row_out_of_bounds_throws:
  "post_move initialGame (Some (10, 0)) (Some (9, 0)) = Some (Inl TypeError)
   \<and> post_move initialGame (Some (8, 0)) (Some (- 1, 0)) = Some (Inl TypeError)
   \<and> isValidMove (board initialGame) (10, 0) (9, 0) (turn initialGame)
        (enPassantTarget initialGame) (enPassantPawn initialGame)
       = Some (Inr (Illegal OutOfBounds))
   \<and> post_move initialGame (Some (8, 10)) (Some (7, 10))
       = Some (Inr (Rejected OutOfBounds, initialGame))"
  by code_simp

end
